theory Spec2Isabelle
  imports Complex_Main "HOL-Library.Word"
begin

section \<open>Machine types of MT25091\_Common.h\<close>

text \<open>
  The programs are built for 64-bit Linux: \<open>size_t\<close> and \<open>unsigned long long\<close> are
  64-bit unsigned words (arithmetic wraps), a \<open>char\<close> of a buffer is one byte.
  \<open>int\<close> and \<open>ssize_t\<close> values are kept as mathematical integers: the programs only
  compare them with small constants, add one, or subtract one.
\<close>

type_synonym size_t = "64 word"
type_synonym ull = "64 word"
type_synonym byte = "8 word"

definition NUM_STRING_FIELDS :: nat where
  "NUM_STRING_FIELDS = 8"

section \<open>The message model (MT25091\_Common.h)\<close>

text \<open>
  \<open>typedef struct { char *field[NUM_STRING_FIELDS]; } Message;\<close>
  Each pointer is modelled by the block it points to.
\<close>

record Message =
  field :: "byte list list"

text \<open>
  The C library's allocator is outside the repository. A heap says which of the
  successive \<open>malloc\<close> calls of one operation succeed (call 0 is the first), and what
  the uninitialised bytes of a fresh block are.
\<close>

record heap =
  malloc_ok :: "nat \<Rightarrow> bool"
  garbage :: "nat \<Rightarrow> byte"

definition malloc_block :: "heap \<Rightarrow> nat \<Rightarrow> byte list" where
  "malloc_block h n = map (garbage h) [0..<n]"

text \<open>\<open>memset(s, c, n)\<close>: the first \<open>n\<close> bytes of the block become \<open>c\<close>.\<close>

definition memset :: "byte list \<Rightarrow> byte \<Rightarrow> nat \<Rightarrow> byte list" where
  "memset s c n = replicate n c @ drop n s"

text \<open>
  \<open>memcpy(buffer + off, src, n)\<close>: \<open>n\<close> bytes of \<open>src\<close> replace the bytes
  \<open>off ..< off + n\<close> of the destination block. C leaves the call undefined unless
  \<open>n \<le> length src\<close> and \<open>off + n \<le> length buffer\<close>; on a message built by
  \<open>allocate_message\<close> for the same size, \<open>serialize_message\<close> stays inside these bounds.
\<close>

definition memcpy_at :: "byte list \<Rightarrow> nat \<Rightarrow> byte list \<Rightarrow> nat \<Rightarrow> byte list" where
  "memcpy_at buffer off src n = take off buffer @ take n src @ drop (off + n) buffer"

text \<open>
  \<open>size_t per_field_size = field_size / NUM_STRING_FIELDS;
  if (per_field_size == 0) per_field_size = 1;\<close>
  (the same two lines open \<open>allocate_message\<close>, \<open>serialize_message\<close> and the
  scatter-gather and zero-copy sessions).
\<close>

definition per_field_size :: "size_t \<Rightarrow> size_t" where
  "per_field_size field_size =
     (let p = field_size div word_of_nat NUM_STRING_FIELDS in if p = 0 then 1 else p)"

text \<open>
  The loop of \<open>allocate_message\<close>: \<open>for (i = 0; i < NUM_STRING_FIELDS; i++)\<close>.
  Field \<open>i\<close> comes from \<open>malloc\<close> call \<open>i + 1\<close> (call 0 was the struct). On a failed
  call the fields so far and the struct are freed and the result is \<open>NULL\<close>;
  otherwise the block is filled with \<open>'A' + i\<close> (\<open>'A'\<close> is 65).
\<close>

function allocate_fields :: "heap \<Rightarrow> size_t \<Rightarrow> nat \<Rightarrow> byte list list \<Rightarrow> byte list list option" where
  "allocate_fields h per i fs =
     (if i < NUM_STRING_FIELDS then
        (if \<not> malloc_ok h (Suc i) then None
         else allocate_fields h per (Suc i)
                (fs @ [memset (malloc_block h (unat per)) (word_of_nat (65 + i)) (unat per)]))
      else Some fs)"
  by pat_completeness auto
termination
  by (relation "measure (\<lambda>(h, per, i, fs). NUM_STRING_FIELDS - i)") auto

declare allocate_fields.simps [simp del]

definition allocate_message :: "heap \<Rightarrow> size_t \<Rightarrow> Message option" where
  "allocate_message h field_size =
     (if \<not> malloc_ok h 0 then None
      else case allocate_fields h (per_field_size field_size) 0 [] of
             None \<Rightarrow> None
           | Some fs \<Rightarrow> Some \<lparr>field = fs\<rparr>)"

text \<open>
  The loop of \<open>serialize_message\<close>: \<open>memcpy(ptr, msg->field[i], per_field_size);
  ptr += per_field_size;\<close> with \<open>ptr\<close> kept as an offset into \<open>buffer\<close>.
\<close>

function serialize_loop :: "Message \<Rightarrow> size_t \<Rightarrow> nat \<Rightarrow> nat \<Rightarrow> byte list \<Rightarrow> byte list" where
  "serialize_loop msg per i ptr buffer =
     (if i < NUM_STRING_FIELDS then
        serialize_loop msg per (Suc i) (ptr + unat per)
          (memcpy_at buffer ptr (field msg ! i) (unat per))
      else buffer)"
  by pat_completeness auto
termination
  by (relation "measure (\<lambda>(msg, per, i, ptr, buffer). NUM_STRING_FIELDS - i)") auto

declare serialize_loop.simps [simp del]

text \<open>
  \<open>serialize_message(msg, field_size, &total_size)\<close> returns the buffer (\<open>None\<close> is
  \<open>NULL\<close>) and the value stored to \<open>*total_size\<close>, which is written before the
  allocation is tried. Its one \<open>malloc\<close> is call 0 of the heap it is given.
\<close>

definition serialize_message :: "heap \<Rightarrow> Message \<Rightarrow> size_t \<Rightarrow> byte list option \<times> size_t" where
  "serialize_message h msg field_size =
     (let per = per_field_size field_size;
          total_size = per * word_of_nat NUM_STRING_FIELDS
      in if \<not> malloc_ok h 0 then (None, total_size)
         else (Some (serialize_loop msg per 0 0 (malloc_block h (unat total_size))), total_size))"

text \<open>
  The scatter-gather sessions (Part A2, also the zero-copy server) describe the message
  to \<open>sendmsg\<close> by eight descriptors:
  \<open>iov[i].iov_base = msg->field[i]; iov[i].iov_len = per_field_size;\<close>
\<close>

record iovec =
  iov_base :: "byte list"
  iov_len :: nat

definition setup_iov :: "Message \<Rightarrow> size_t \<Rightarrow> iovec list" where
  "setup_iov msg per =
     map (\<lambda>i. \<lparr>iov_base = field msg ! i, iov_len = unat per\<rparr>) [0..<NUM_STRING_FIELDS]"

text \<open>
  What \<open>sendmsg\<close> offers to the transport for a descriptor vector: the first
  \<open>iov_len\<close> bytes of each block, in the order of the vector.
\<close>

definition gather :: "iovec list \<Rightarrow> byte list" where
  "gather iov = concat (map (\<lambda>v. take (iov_len v) (iov_base v)) iov)"

text \<open>
  The content \<open>allocate_message\<close> gives to field \<open>i\<close>: \<open>per\<close> copies of the byte
  \<open>'A' + i\<close>. Used to state the results below.
\<close>

definition pattern_field :: "size_t \<Rightarrow> nat \<Rightarrow> byte list" where
  "pattern_field per i = replicate (unat per) (word_of_nat (65 + i))"

text \<open>A heap on which every allocation succeeds, for the concrete runs below.\<close>

definition all_ok :: heap where
  "all_ok = \<lparr>malloc_ok = (\<lambda>k. True), garbage = (\<lambda>a. 0)\<rparr>"

section \<open>Sessions and the kernel\<close>

text \<open>
  \<open>ClientContext\<close> of MT25091\_Common.h. \<open>socket_fd\<close> and \<open>client_id\<close> only name the
  socket and label the printed lines, and \<open>running\<close> points to the flag whose reads are
  events below; the model keeps the configuration and the statistics.
  \<open>total_latency_us\<close> is a \<open>double\<close>: it is kept as a real number, so rounding of
  the floating-point operations is not modelled.
\<close>

record ClientContext =
  msg_size :: size_t
  duration :: int
  bytes_sent :: ull
  bytes_received :: ull
  messages_sent :: ull
  messages_received :: ull
  total_latency_us :: real

text \<open>\<open>memset(ctx, 0, sizeof(ClientContext))\<close> and the assignments that follow it.\<close>

definition new_context :: "size_t \<Rightarrow> int \<Rightarrow> ClientContext" where
  "new_context sz dur =
     \<lparr>msg_size = sz, duration = dur, bytes_sent = 0, bytes_received = 0,
      messages_sent = 0, messages_received = 0, total_latency_us = 0\<rparr>"

text \<open>
  The values of \<open>errno\<close> the programs test, and one constructor for every other value.
\<close>

datatype errno = EAGAIN | EWOULDBLOCK | ECONNRESET | EPIPE | ENOBUFS | EOTHER

text \<open>
  The first control message header of a message read from the socket's error queue, and
  the two constants \<open>handle_zerocopy_completion\<close> compares it with (their Linux values).
\<close>

record cmsghdr =
  cmsg_level :: int
  cmsg_type :: int

definition SOL_IP :: int where
  "SOL_IP = 0"

definition IP_RECVERR :: int where
  "IP_RECVERR = 11"

text \<open>
  \<open>recvmsg(sockfd, &msg, MSG_ERRQUEUE)\<close>: a negative return with its \<open>errno\<close>, or a
  non-negative return with \<open>CMSG_FIRSTHDR(&msg)\<close> (\<open>None\<close> is \<open>NULL\<close>).
\<close>

datatype recvmsg_result = RecvmsgFailed errno | RecvmsgOk "cmsghdr option"

text \<open>
  What a session sees of the world: each event is one read of the volatile flag
  \<open>*(ctx->running)\<close>, one clock reading (\<open>get_time_sec\<close>, \<open>get_time_us\<close>; a \<open>double\<close>,
  kept as a real number) or one socket call, with the length the program passes and the
  value the kernel returns (the source's \<open>bytes_sent\<close>, \<open>bytes_recv\<close>; \<open>ret\<close> below).
  For \<open>sendmsg\<close> the length is the sum of the \<open>iov_len\<close> of its vector. \<open>errno\<close> is
  kept where the program branches on it, and is read only after a negative return;
  after \<open>send\<close> and \<open>recv\<close> it only selects whether \<open>perror\<close> prints.
\<close>

datatype event =
    Running bool
  | TimeSec real
  | TimeUs real
  | Send size_t int
  | Recv size_t int
  | Sendmsg size_t int errno
  | ErrQueue recvmsg_result

text \<open>A session runs over a sequence of events; an event the program is not at is refused.\<close>

fun run :: "('s \<Rightarrow> event \<Rightarrow> 's option) \<Rightarrow> 's \<Rightarrow> event list \<Rightarrow> 's option" where
  "run step s [] = Some s"
| "run step s (e # es) = (case step s e of None \<Rightarrow> None | Some s' \<Rightarrow> run step s' es)"

text \<open>The allocations of an operation that follows \<open>n\<close> earlier \<open>malloc\<close> calls.\<close>

definition heap_after :: "nat \<Rightarrow> heap \<Rightarrow> heap" where
  "heap_after n h = h\<lparr>malloc_ok := (\<lambda>k. malloc_ok h (k + n))\<rparr>"

section \<open>The zero-copy server session (MT25091\_Part\_A3\_Server.c)\<close>

text \<open>
  \<open>handle_zerocopy_completion\<close>, as a function of what its \<open>recvmsg\<close> call returned:
  0 when no notification is available, -1 on any other error, 1 for a completion
  notification, 0 for any other message.
\<close>

definition handle_zerocopy_completion :: "recvmsg_result \<Rightarrow> int" where
  "handle_zerocopy_completion r =
     (case r of
        RecvmsgFailed e \<Rightarrow> if e = EAGAIN \<or> e = EWOULDBLOCK then 0 else - 1
      | RecvmsgOk cm \<Rightarrow>
          (case cm of
             Some c \<Rightarrow> if cmsg_level c = SOL_IP \<and> cmsg_type c = IP_RECVERR then 1 else 0
           | None \<Rightarrow> 0))"

text \<open>\<open>const int max_pending = 8; /* Limit pending zero-copy operations */\<close>\<close>

definition max_pending :: int where
  "max_pending = 8"

text \<open>
  The places of \<open>handle_client\<close> where the session waits for the world:
  \<^item> \<open>ZLoop\<close>: \<open>while (*(ctx->running))\<close>, line 153;
  \<^item> \<open>ZPoll\<close>: the call in the loop "Check for zero-copy completions", line 156;
  \<^item> \<open>ZRecv\<close>: \<open>recv\<close>, line 165;
  \<^item> \<open>ZWait\<close>: the call in the loop "Wait if too many pending operations", line 179;
  \<^item> \<open>ZSend\<close>: \<open>sendmsg(..., MSG_ZEROCOPY)\<close>, line 189;
  \<^item> \<open>ZRetry\<close>: the call after \<open>errno == ENOBUFS\<close>, line 195;
  \<^item> \<open>ZDrain\<close>: the call in the loop "Drain remaining completions", line 212;
  \<^item> \<open>ZReleased\<close>: after \<open>cleanup\<close>: the message and the receive buffer are freed and
    the socket is closed.
\<close>

datatype zc_pc = ZLoop | ZPoll | ZRecv | ZWait | ZSend | ZRetry | ZDrain | ZReleased

record zc_session =
  zc_pc :: zc_pc
  zc_ctx :: ClientContext
  zc_total_size :: size_t
  pending_completions :: int

text \<open>
  The three inner loops test their condition without a call:
  \<open>while (pending_completions > 0)\<close> (lines 155 and 211) and
  \<open>while (pending_completions >= max_pending)\<close> (line 178).
\<close>

definition zc_enter_poll :: "zc_session \<Rightarrow> zc_session" where
  "zc_enter_poll s = (if pending_completions s > 0 then s\<lparr>zc_pc := ZPoll\<rparr> else s\<lparr>zc_pc := ZRecv\<rparr>)"

definition zc_enter_wait :: "zc_session \<Rightarrow> zc_session" where
  "zc_enter_wait s =
     (if pending_completions s \<ge> max_pending then s\<lparr>zc_pc := ZWait\<rparr> else s\<lparr>zc_pc := ZSend\<rparr>)"

definition zc_enter_drain :: "zc_session \<Rightarrow> zc_session" where
  "zc_enter_drain s =
     (if pending_completions s > 0 then s\<lparr>zc_pc := ZDrain\<rparr> else s\<lparr>zc_pc := ZReleased\<rparr>)"

text \<open>
  Lines 102 to 150 of \<open>handle_client\<close>: the sizes, the message (\<open>malloc\<close> calls 0 to
  8), the receive buffer (call 9). A failed allocation jumps to \<open>cleanup\<close>, before any
  call on the socket data path. The result of \<open>setsockopt(SO_ZEROCOPY)\<close> is not used:
  the session continues either way.
\<close>

definition zc_handle_client_start :: "heap \<Rightarrow> ClientContext \<Rightarrow> zc_session" where
  "zc_handle_client_start h c =
     (let per = per_field_size (msg_size c);
          total = per * word_of_nat NUM_STRING_FIELDS;
          s = \<lparr>zc_pc = ZLoop, zc_ctx = c, zc_total_size = total, pending_completions = 0\<rparr>
      in case allocate_message h (msg_size c) of
           None \<Rightarrow> s\<lparr>zc_pc := ZReleased\<rparr>
         | Some msg \<Rightarrow> if \<not> malloc_ok h 9 then s\<lparr>zc_pc := ZReleased\<rparr> else s)"

text \<open>
  One event of \<open>handle_client\<close>: the main communication loop and the teardown, lines
  153 to 230.
\<close>

definition zc_handle_client :: "zc_session \<Rightarrow> event \<Rightarrow> zc_session option" where
  "zc_handle_client s e =
     (case (zc_pc s, e) of
        (ZLoop, Running b) \<Rightarrow> Some (if b then zc_enter_poll s else zc_enter_drain s)
      | (ZPoll, ErrQueue r) \<Rightarrow>
          Some (if handle_zerocopy_completion r > 0
                then zc_enter_poll (s\<lparr>pending_completions := pending_completions s - 1\<rparr>)
                else s\<lparr>zc_pc := ZRecv\<rparr>)
      | (ZRecv, Recv len ret) \<Rightarrow>
          if len \<noteq> zc_total_size s then None
          else Some (if ret \<le> 0 then zc_enter_drain s
                else zc_enter_wait (s\<lparr>zc_ctx := (zc_ctx s)
                       \<lparr>bytes_received := bytes_received (zc_ctx s) + word_of_int ret,
                        messages_received := messages_received (zc_ctx s) + 1\<rparr>\<rparr>))
      | (ZWait, ErrQueue r) \<Rightarrow>
          Some (let ret = handle_zerocopy_completion r in
                if ret > 0 then zc_enter_wait (s\<lparr>pending_completions := pending_completions s - 1\<rparr>)
                else if ret < 0 then s\<lparr>zc_pc := ZSend\<rparr>
                else zc_enter_wait s)
      | (ZSend, Sendmsg len ret err) \<Rightarrow>
          if len \<noteq> zc_total_size s then None
          else Some (if ret \<le> 0 then
                  (if ret < 0 \<and> err = ENOBUFS then s\<lparr>zc_pc := ZRetry\<rparr>
                   else zc_enter_drain s)
                else s\<lparr>zc_pc := ZLoop,
                       pending_completions := pending_completions s + 1,
                       zc_ctx := (zc_ctx s)
                         \<lparr>bytes_sent := bytes_sent (zc_ctx s) + word_of_int ret,
                          messages_sent := messages_sent (zc_ctx s) + 1\<rparr>\<rparr>)
      | (ZRetry, ErrQueue r) \<Rightarrow> Some (s\<lparr>zc_pc := ZLoop\<rparr>)
      | (ZDrain, ErrQueue r) \<Rightarrow>
          Some (if handle_zerocopy_completion r > 0
                then zc_enter_drain (s\<lparr>pending_completions := pending_completions s - 1\<rparr>)
                else s\<lparr>zc_pc := ZReleased\<rparr>)
      | _ \<Rightarrow> None)"

section \<open>The two-copy sessions (MT25091\_Part\_A1\_Server.c, MT25091\_Part\_A1\_Client.c)\<close>

text \<open>
  The server's \<open>handle_client\<close> waits at three places: the loop test
  \<open>while (*(ctx->running))\<close> (line 69), \<open>recv\<close> (line 73) and \<open>send\<close> (line 88).
  \<open>SClosed\<close> is the state after \<open>cleanup\<close>.
\<close>

datatype sv_pc = SLoop | SRecv | SSend | SClosed

record sv_session =
  sv_pc :: sv_pc
  sv_ctx :: ClientContext
  sv_buffer_size :: size_t

text \<open>
  Lines 44 to 66 of \<open>handle_client\<close>: the message (\<open>malloc\<close> calls 0 to 8), the send buffer (call 9, inside
  \<open>serialize_message\<close>, which sets \<open>buffer_size\<close> first) and the receive buffer (call
  10); a failure jumps to \<open>cleanup\<close>. \<open>buffer_size\<close> starts as 0.
\<close>

definition sv_handle_client_start :: "heap \<Rightarrow> ClientContext \<Rightarrow> sv_session" where
  "sv_handle_client_start h c =
     (case allocate_message h (msg_size c) of
        None \<Rightarrow> \<lparr>sv_pc = SClosed, sv_ctx = c, sv_buffer_size = 0\<rparr>
      | Some msg \<Rightarrow>
          (case serialize_message (heap_after 9 h) msg (msg_size c) of
             (None, buffer_size) \<Rightarrow> \<lparr>sv_pc = SClosed, sv_ctx = c, sv_buffer_size = buffer_size\<rparr>
           | (Some send_buffer, buffer_size) \<Rightarrow>
               \<lparr>sv_pc = (if \<not> malloc_ok h 10 then SClosed else SLoop), sv_ctx = c,
                sv_buffer_size = buffer_size\<rparr>))"

text \<open>
  One event of \<open>handle_client\<close>: the main communication loop, lines 69 to 99. Both calls are made with
  the length \<open>buffer_size\<close>; the response is the buffer serialized at the start, not the
  bytes received.
\<close>

definition sv_handle_client :: "sv_session \<Rightarrow> event \<Rightarrow> sv_session option" where
  "sv_handle_client s e =
     (case (sv_pc s, e) of
        (SLoop, Running b) \<Rightarrow> Some (if b then s\<lparr>sv_pc := SRecv\<rparr> else s\<lparr>sv_pc := SClosed\<rparr>)
      | (SRecv, Recv len ret) \<Rightarrow>
          if len \<noteq> sv_buffer_size s then None
          else Some (if ret \<le> 0 then s\<lparr>sv_pc := SClosed\<rparr>
                else s\<lparr>sv_pc := SSend,
                       sv_ctx := (sv_ctx s)
                         \<lparr>bytes_received := bytes_received (sv_ctx s) + word_of_int ret,
                          messages_received := messages_received (sv_ctx s) + 1\<rparr>\<rparr>)
      | (SSend, Send len ret) \<Rightarrow>
          if len \<noteq> sv_buffer_size s then None
          else Some (if ret \<le> 0 then s\<lparr>sv_pc := SClosed\<rparr>
                else s\<lparr>sv_pc := SLoop,
                       sv_ctx := (sv_ctx s)
                         \<lparr>bytes_sent := bytes_sent (sv_ctx s) + word_of_int ret,
                          messages_sent := messages_sent (sv_ctx s) + 1\<rparr>\<rparr>)
      | _ \<Rightarrow> None)"

text \<open>
  The client's \<open>client_thread\<close> waits at:
  \<^item> \<open>CStart\<close>: \<open>start_time = get_time_sec()\<close>, line 61;
  \<^item> \<open>CLoop\<close>, \<open>CLoopTime\<close>: the two operands of the loop test
    \<open>*(ctx->running) && get_time_sec() < end_time\<close>, line 65;
  \<^item> \<open>CSendStart\<close>: \<open>send_start = get_time_us()\<close>, line 66;
  \<^item> \<open>CSend\<close>: \<open>send\<close>, line 71;
  \<^item> \<open>CRecvLoop\<close>: the read of the flag in
    \<open>total_recv < (ssize_t)buffer_size && *(ctx->running)\<close>, line 87;
  \<^item> \<open>CRecv\<close>: \<open>recv\<close>, line 88;
  \<^item> \<open>CSendEnd\<close>: \<open>send_end = get_time_us()\<close>, line 99;
  \<^item> \<open>CFinish\<close>: \<open>get_time_sec()\<close> for the printed duration, line 108;
  \<^item> \<open>CClosed\<close>: after \<open>cleanup\<close>.
\<close>

datatype cl_pc =
  CStart | CLoop | CLoopTime | CSendStart | CSend | CRecvLoop | CRecv | CSendEnd | CFinish | CClosed

record cl_session =
  cl_pc :: cl_pc
  cl_ctx :: ClientContext
  cl_buffer_size :: size_t
  end_time :: real
  send_start :: real
  total_recv :: int

text \<open>
  Lines 38 to 59 of \<open>client_thread\<close>: the message (\<open>malloc\<close> calls 0 to 8), the send
  buffer (call 9, inside \<open>serialize_message\<close>) and the receive buffer (call 10); a
  failure jumps to \<open>cleanup\<close>.
\<close>

definition cl_client_thread_start :: "heap \<Rightarrow> ClientContext \<Rightarrow> cl_session" where
  "cl_client_thread_start h c =
     (case allocate_message h (msg_size c) of
        None \<Rightarrow> \<lparr>cl_pc = CClosed, cl_ctx = c, cl_buffer_size = 0,
                 end_time = 0, send_start = 0, total_recv = 0\<rparr>
      | Some msg \<Rightarrow>
          (case serialize_message (heap_after 9 h) msg (msg_size c) of
             (None, buffer_size) \<Rightarrow>
               \<lparr>cl_pc = CClosed, cl_ctx = c, cl_buffer_size = buffer_size,
                end_time = 0, send_start = 0, total_recv = 0\<rparr>
           | (Some send_buffer, buffer_size) \<Rightarrow>
               \<lparr>cl_pc = (if \<not> malloc_ok h 10 then CClosed else CStart), cl_ctx = c,
                cl_buffer_size = buffer_size, end_time = 0, send_start = 0, total_recv = 0\<rparr>))"

text \<open>
  The test \<open>total_recv < (ssize_t)buffer_size\<close> of the receive loop needs no call; the
  cast reads the 64-bit size as a signed value.
\<close>

definition cl_enter_recv :: "cl_session \<Rightarrow> cl_session" where
  "cl_enter_recv s =
     (if total_recv s < sint (cl_buffer_size s) then s\<lparr>cl_pc := CRecvLoop\<rparr>
      else s\<lparr>cl_pc := CSendEnd\<rparr>)"

text \<open>
  One event of \<open>client_thread\<close>, lines 61 to 108. \<open>send\<close> is called once per loop
  iteration with the whole buffer; \<open>recv\<close> is repeated with the remaining length
  \<open>buffer_size - total_recv\<close> until the echo is complete, the flag is cleared, or it
  fails (\<open>goto cleanup\<close>).
\<close>

definition cl_client_thread :: "cl_session \<Rightarrow> event \<Rightarrow> cl_session option" where
  "cl_client_thread s e =
     (case (cl_pc s, e) of
        (CStart, TimeSec t) \<Rightarrow>
          Some (s\<lparr>cl_pc := CLoop, end_time := t + real_of_int (duration (cl_ctx s))\<rparr>)
      | (CLoop, Running b) \<Rightarrow> Some (if b then s\<lparr>cl_pc := CLoopTime\<rparr> else s\<lparr>cl_pc := CFinish\<rparr>)
      | (CLoopTime, TimeSec t) \<Rightarrow>
          Some (if t < end_time s then s\<lparr>cl_pc := CSendStart\<rparr> else s\<lparr>cl_pc := CFinish\<rparr>)
      | (CSendStart, TimeUs t) \<Rightarrow> Some (s\<lparr>cl_pc := CSend, send_start := t\<rparr>)
      | (CSend, Send len ret) \<Rightarrow>
          if len \<noteq> cl_buffer_size s then None
          else Some (if ret \<le> 0 then s\<lparr>cl_pc := CFinish\<rparr>
                else cl_enter_recv (s\<lparr>total_recv := 0,
                       cl_ctx := (cl_ctx s)
                         \<lparr>bytes_sent := bytes_sent (cl_ctx s) + word_of_int ret,
                          messages_sent := messages_sent (cl_ctx s) + 1\<rparr>\<rparr>))
      | (CRecvLoop, Running b) \<Rightarrow> Some (if b then s\<lparr>cl_pc := CRecv\<rparr> else s\<lparr>cl_pc := CSendEnd\<rparr>)
      | (CRecv, Recv len ret) \<Rightarrow>
          if len \<noteq> cl_buffer_size s - word_of_int (total_recv s) then None
          else Some (if ret \<le> 0 then s\<lparr>cl_pc := CClosed\<rparr>
                else cl_enter_recv (s\<lparr>total_recv := total_recv s + ret\<rparr>))
      | (CSendEnd, TimeUs t) \<Rightarrow>
          Some (s\<lparr>cl_pc := CLoop,
                 cl_ctx := (cl_ctx s)
                   \<lparr>bytes_received := bytes_received (cl_ctx s) + word_of_int (total_recv s),
                    messages_received := messages_received (cl_ctx s) + 1,
                    total_latency_us := total_latency_us (cl_ctx s) + (t - send_start s)\<rparr>\<rparr>)
      | (CFinish, TimeSec t) \<Rightarrow> Some (s\<lparr>cl_pc := CClosed\<rparr>)
      | _ \<Rightarrow> None)"

section \<open>The client's summary (main of MT25091\_Part\_A1\_Client.c, lines 205 to 244)\<close>

record totals =
  total_bytes_sent :: ull
  total_bytes_recv :: ull
  total_messages :: ull
  total_latency :: real
  active_threads :: int

definition no_totals :: totals where
  "no_totals = \<lparr>total_bytes_sent = 0, total_bytes_recv = 0, total_messages = 0,
                total_latency = 0, active_threads = 0\<rparr>"

text \<open>
  The joining loop over \<open>contexts[i]\<close>; \<open>None\<close> is a context that was never created
  (its thread was not started). Each context is read after its thread was joined.
\<close>

fun join_all :: "ClientContext option list \<Rightarrow> totals \<Rightarrow> totals" where
  "join_all [] acc = acc"
| "join_all (None # cs) acc = join_all cs acc"
| "join_all (Some c # cs) acc =
     join_all cs
       \<lparr>total_bytes_sent = total_bytes_sent acc + bytes_sent c,
        total_bytes_recv = total_bytes_recv acc + bytes_received c,
        total_messages = total_messages acc + messages_sent c,
        total_latency = total_latency acc + total_latency_us c,
        active_threads = active_threads acc + 1\<rparr>"

text \<open>
  The two printed figures, \<open>throughput_gbps\<close> and \<open>avg_latency_us\<close>; \<open>None\<close> is the
  branch that prints "No successful connections.". The conversions of the 64-bit
  counters to \<open>double\<close> and the floating-point operations are taken as exact. For a
  duration of 0 the C division gives an infinity or a NaN where the division of HOL
  gives 0, so the statements about the throughput are made for a positive duration.
\<close>

definition summary :: "int \<Rightarrow> totals \<Rightarrow> (real \<times> real) option" where
  "summary dur t =
     (if active_threads t > 0 \<and> total_messages t > 0 then
        Some (real (unat (total_bytes_sent t + total_bytes_recv t)) * 8 /
                (real_of_int dur * 1000000000),
              total_latency t / real (unat (total_messages t)))
      else None)"

section \<open>Admission control (main of the servers)\<close>

text \<open>
  The accept loops of the three servers are the same (Part A1 lines 176 to 237, Part A3
  lines 285 to 341), and every \<open>handle_client\<close> ends with the same three lines (Part A1
  lines 117 to 119). The threads of a server are its main thread and one thread per
  session; they share \<open>num_active_clients\<close> and \<open>clients_mutex\<close>. Their steps
  interleave in any order. \<open>num_active_clients++\<close> and \<open>num_active_clients--\<close> are a
  load into a register of the thread followed by a store, so that an update lost
  between two threads would show.
\<close>

datatype thread = MainThread | SessionThread nat

text \<open>
  The main thread, with the lines of Part A1:
  \<^item> \<open>MAccept\<close>: \<open>accept\<close>, line 183; a failed call continues the loop;
  \<^item> \<open>MLock\<close>: \<open>pthread_mutex_lock\<close>, line 196;
  \<^item> \<open>MCheck\<close>: \<open>if (num_active_clients >= max_threads)\<close>, line 197;
  \<^item> \<open>MUnlockReject\<close>: the unlock of line 198, \<open>close(new_socket)\<close> and \<open>continue\<close>;
  \<^item> \<open>MIncLoad\<close>, \<open>MIncStore\<close>: \<open>num_active_clients++\<close>, line 203;
  \<^item> \<open>MUnlockAdmit\<close>: the unlock of line 204;
  \<^item> \<open>MSpawn\<close>: the context allocation and \<open>pthread_create\<close>, lines 207 to 236;
  \<^item> \<open>MFailLock\<close>, \<open>MFailLoad\<close>, \<open>MFailStore\<close>, \<open>MFailUnlock\<close>: the lock,
    \<open>num_active_clients--\<close> and unlock after a failed allocation or a failed
    \<open>pthread_create\<close>, lines 211 to 213 and 229 to 231.
\<close>

datatype main_pc =
  MAccept | MLock | MCheck | MUnlockReject | MIncLoad | MIncStore | MUnlockAdmit | MSpawn
  | MFailLock | MFailLoad | MFailStore | MFailUnlock

text \<open>
  A session thread: \<open>TBody\<close> is \<open>handle_client\<close> up to its \<open>cleanup\<close>; \<open>TLock\<close>,
  \<open>TLoad\<close> and \<open>TStore\<close>, \<open>TUnlock\<close> are lines 117, 118 and 119; \<open>TDone\<close> is the
  thread after its return.
\<close>

datatype session_pc = TBody | TLock | TLoad | TStore | TUnlock | TDone

text \<open>
  The shared variables, the state of the main thread, and the session threads in the
  order of their creation, each with its register. \<open>rejected\<close> counts the connections
  closed at line 200.
\<close>

record server =
  num_active_clients :: int
  clients_mutex :: "thread option"
  main_pc :: main_pc
  main_reg :: int
  sessions :: "(session_pc \<times> int) list"
  rejected :: nat

definition server_init :: server where
  "server_init = \<lparr>num_active_clients = 0, clients_mutex = None, main_pc = MAccept, main_reg = 0,
                  sessions = [], rejected = 0\<rparr>"

text \<open>
  One step of one thread. The main thread's step carries the outcome of the call it is
  at (\<open>accept\<close> returned a socket; the context was allocated and the thread created);
  elsewhere the outcome is not read. A thread at a lock can only step when the mutex is
  free.
\<close>

datatype move = MainMove bool | SessionMove nat

definition main_step :: "int \<Rightarrow> bool \<Rightarrow> server \<Rightarrow> server option" where
  "main_step max_threads ok s =
     (case main_pc s of
        MAccept \<Rightarrow> Some (if ok then s\<lparr>main_pc := MLock\<rparr> else s)
      | MLock \<Rightarrow>
          if clients_mutex s = None
          then Some (s\<lparr>clients_mutex := Some MainThread, main_pc := MCheck\<rparr>) else None
      | MCheck \<Rightarrow>
          Some (if num_active_clients s \<ge> max_threads then s\<lparr>main_pc := MUnlockReject\<rparr>
                else s\<lparr>main_pc := MIncLoad\<rparr>)
      | MUnlockReject \<Rightarrow>
          Some (s\<lparr>clients_mutex := None, rejected := rejected s + 1, main_pc := MAccept\<rparr>)
      | MIncLoad \<Rightarrow> Some (s\<lparr>main_reg := num_active_clients s, main_pc := MIncStore\<rparr>)
      | MIncStore \<Rightarrow> Some (s\<lparr>num_active_clients := main_reg s + 1, main_pc := MUnlockAdmit\<rparr>)
      | MUnlockAdmit \<Rightarrow> Some (s\<lparr>clients_mutex := None, main_pc := MSpawn\<rparr>)
      | MSpawn \<Rightarrow>
          Some (if ok then s\<lparr>sessions := sessions s @ [(TBody, 0)], main_pc := MAccept\<rparr>
                else s\<lparr>main_pc := MFailLock\<rparr>)
      | MFailLock \<Rightarrow>
          if clients_mutex s = None
          then Some (s\<lparr>clients_mutex := Some MainThread, main_pc := MFailLoad\<rparr>) else None
      | MFailLoad \<Rightarrow> Some (s\<lparr>main_reg := num_active_clients s, main_pc := MFailStore\<rparr>)
      | MFailStore \<Rightarrow> Some (s\<lparr>num_active_clients := main_reg s - 1, main_pc := MFailUnlock\<rparr>)
      | MFailUnlock \<Rightarrow> Some (s\<lparr>clients_mutex := None, main_pc := MAccept\<rparr>))"

definition session_step :: "nat \<Rightarrow> server \<Rightarrow> server option" where
  "session_step i s =
     (if i \<ge> length (sessions s) then None
      else case sessions s ! i of
        (TBody, r) \<Rightarrow> Some (s\<lparr>sessions := (sessions s)[i := (TLock, r)]\<rparr>)
      | (TLock, r) \<Rightarrow>
          if clients_mutex s = None
          then Some (s\<lparr>clients_mutex := Some (SessionThread i),
                       sessions := (sessions s)[i := (TLoad, r)]\<rparr>)
          else None
      | (TLoad, r) \<Rightarrow> Some (s\<lparr>sessions := (sessions s)[i := (TStore, num_active_clients s)]\<rparr>)
      | (TStore, r) \<Rightarrow>
          Some (s\<lparr>num_active_clients := r - 1, sessions := (sessions s)[i := (TUnlock, r)]\<rparr>)
      | (TUnlock, r) \<Rightarrow>
          Some (s\<lparr>clients_mutex := None, sessions := (sessions s)[i := (TDone, r)]\<rparr>)
      | (TDone, r) \<Rightarrow> None)"

fun server_step :: "int \<Rightarrow> server \<Rightarrow> move \<Rightarrow> server option" where
  "server_step max_threads s (MainMove ok) = main_step max_threads ok s"
| "server_step max_threads s (SessionMove i) = session_step i s"

fun server_run :: "int \<Rightarrow> server \<Rightarrow> move list \<Rightarrow> server option" where
  "server_run max_threads s [] = Some s"
| "server_run max_threads s (m # ms) =
     (case server_step max_threads s m of
        None \<Rightarrow> None
      | Some s' \<Rightarrow> server_run max_threads s' ms)"

text \<open>
  Where a thread is between a lock and its unlock; which session threads have not yet
  stored their decrement; and where the main thread has stored an increment for a
  connection that no session thread has taken over yet.
\<close>

fun main_holds :: "main_pc \<Rightarrow> bool" where
  "main_holds MCheck = True"
| "main_holds MUnlockReject = True"
| "main_holds MIncLoad = True"
| "main_holds MIncStore = True"
| "main_holds MUnlockAdmit = True"
| "main_holds MFailLoad = True"
| "main_holds MFailStore = True"
| "main_holds MFailUnlock = True"
| "main_holds pc = False"

fun session_holds :: "session_pc \<times> int \<Rightarrow> bool" where
  "session_holds (TLoad, r) = True"
| "session_holds (TStore, r) = True"
| "session_holds (TUnlock, r) = True"
| "session_holds t = False"

fun counted :: "session_pc \<times> int \<Rightarrow> bool" where
  "counted (TUnlock, r) = False"
| "counted (TDone, r) = False"
| "counted t = True"

fun main_counted :: "main_pc \<Rightarrow> bool" where
  "main_counted MUnlockAdmit = True"
| "main_counted MSpawn = True"
| "main_counted MFailLock = True"
| "main_counted MFailLoad = True"
| "main_counted MFailStore = True"
| "main_counted pc = False"

text \<open>
  What holds in every state of the server: the mutex is held by exactly the thread
  that is between lock and unlock; a thread about to store has the current value of
  the counter in its register; the counter is the number of counted sessions plus the
  connection being handed over, is at most the maximum (at most 0 if the maximum is
  negative), and is below the maximum where the main thread is about to increment.
\<close>

definition holders :: "server \<Rightarrow> int" where
  "holders s = int (length (filter session_holds (sessions s)))"

definition mutex_ok :: "server \<Rightarrow> bool" where
  "mutex_ok s =
     (case clients_mutex s of
        None \<Rightarrow> \<not> main_holds (main_pc s) \<and> holders s = 0
      | Some MainThread \<Rightarrow> main_holds (main_pc s) \<and> holders s = 0
      | Some (SessionThread i) \<Rightarrow>
          \<not> main_holds (main_pc s) \<and> holders s = 1 \<and> i < length (sessions s) \<and>
          session_holds (sessions s ! i))"

definition regs_ok :: "server \<Rightarrow> bool" where
  "regs_ok s =
     ((if main_pc s = MIncStore \<or> main_pc s = MFailStore
       then main_reg s = num_active_clients s else True) \<and>
      (case clients_mutex s of
         Some (SessionThread i) \<Rightarrow>
           (if fst (sessions s ! i) = TStore
            then snd (sessions s ! i) = num_active_clients s else True)
       | _ \<Rightarrow> True))"

definition count_ok :: "int \<Rightarrow> server \<Rightarrow> bool" where
  "count_ok max_threads s =
     (num_active_clients s =
        int (length (filter counted (sessions s))) + (if main_counted (main_pc s) then 1 else 0) \<and>
      num_active_clients s \<le> max 0 max_threads \<and>
      (if main_pc s = MIncLoad \<or> main_pc s = MIncStore
       then num_active_clients s < max_threads else True))"

definition server_inv :: "int \<Rightarrow> server \<Rightarrow> bool" where
  "server_inv max_threads s = (mutex_ok s \<and> regs_ok s \<and> count_ok max_threads s)"

section \<open>Reading traces\<close>

text \<open>
  Functions that read off a trace what the statements below speak about: the positive
  return values of its \<open>send\<close> and of its \<open>recv\<close> calls, whether two \<open>send\<close> calls
  follow each other directly, and whether every successful \<open>recv\<close> that is not the last
  event is directly followed by a \<open>send\<close> of \<open>B\<close> bytes.
\<close>

fun is_send :: "event \<Rightarrow> bool" where
  "is_send (Send len ret) = True"
| "is_send e = False"

fun is_recv :: "event \<Rightarrow> bool" where
  "is_recv (Recv len ret) = True"
| "is_recv e = False"

fun sends_whole :: "size_t \<Rightarrow> event \<Rightarrow> bool" where
  "sends_whole B (Send len ret) = (len = B)"
| "sends_whole B e = False"

fun sent_bytes :: "event list \<Rightarrow> int list" where
  "sent_bytes [] = []"
| "sent_bytes (Send len ret # es) = (if ret > 0 then ret # sent_bytes es else sent_bytes es)"
| "sent_bytes (e # es) = sent_bytes es"

fun received_bytes :: "event list \<Rightarrow> int list" where
  "received_bytes [] = []"
| "received_bytes (Recv len ret # es) =
     (if ret > 0 then ret # received_bytes es else received_bytes es)"
| "received_bytes (e # es) = received_bytes es"

fun send_after_send :: "event list \<Rightarrow> bool" where
  "send_after_send (e # e' # es) = ((is_send e \<and> is_send e') \<or> send_after_send (e' # es))"
| "send_after_send es = False"

fun echoes_whole_buffer :: "size_t \<Rightarrow> event list \<Rightarrow> bool" where
  "echoes_whole_buffer B (Recv len ret # e # es) =
     ((if ret > 0 then sends_whole B e else True) \<and> echoes_whole_buffer B (e # es))"
| "echoes_whole_buffer B (e # es) = echoes_whole_buffer B es"
| "echoes_whole_buffer B [] = True"

text \<open>
  What a trace shows around a \<open>send\<close> call. The events are told apart by
  \<open>is_running\<close> (a read of the \<open>running\<close> flag), \<open>is_time_sec\<close> (a reading of the clock
  in seconds, for the loop test of the client), \<open>is_time_us\<close> (a reading in
  microseconds, for the latency), \<open>recv_of B\<close> (a \<open>recv\<close> call of length \<open>B\<close>) and
  \<open>received_of B\<close> (such a call that returned a positive number of bytes).
\<close>

fun is_running :: "event \<Rightarrow> bool" where
  "is_running (Running b) = True"
| "is_running e = False"

fun is_time_sec :: "event \<Rightarrow> bool" where
  "is_time_sec (TimeSec t) = True"
| "is_time_sec e = False"

fun is_time_us :: "event \<Rightarrow> bool" where
  "is_time_us (TimeUs t) = True"
| "is_time_us e = False"

fun recv_of :: "size_t \<Rightarrow> event \<Rightarrow> bool" where
  "recv_of B (Recv len ret) = (len = B)"
| "recv_of B e = False"

fun received_of :: "size_t \<Rightarrow> event \<Rightarrow> bool" where
  "received_of B (Recv len ret) = (len = B \<and> ret > 0)"
| "received_of B e = False"

text \<open>
  What may follow a \<open>send\<close> call of the client that returned \<open>ret\<close>. After a return
  value that is not positive: the reading of the clock at the end of the thread and
  nothing more. After a positive one, whatever its size: the read of the flag at the
  head of the receive loop, then a \<open>recv\<close> of the whole echo of \<open>B\<close> bytes, or, when the
  flag is down, the reading of the clock that closes the exchange. (A buffer size that
  is not positive as a \<open>ssize_t\<close> skips the receive loop.) \<open>cl_submits B\<close> holds of a
  trace when each of its \<open>send\<close> calls offers \<open>B\<close> bytes and is followed in this way.
\<close>

definition cl_after_send :: "size_t \<Rightarrow> int \<Rightarrow> event list \<Rightarrow> bool" where
  "cl_after_send B ret es =
     (if ret \<le> 0 then (case es of [] \<Rightarrow> True | e # es' \<Rightarrow> is_time_sec e \<and> es' = [])
      else if 0 < sint B then
        (case es of
           [] \<Rightarrow> True
         | [e] \<Rightarrow> is_running e
         | e # e' # es' \<Rightarrow>
             (e = Running True \<and> recv_of B e') \<or> (e = Running False \<and> is_time_us e'))
      else (case es of [] \<Rightarrow> True | e # es' \<Rightarrow> is_time_us e))"

fun cl_submits :: "size_t \<Rightarrow> event list \<Rightarrow> bool" where
  "cl_submits B [] = True"
| "cl_submits B (Send len ret # es) = (len = B \<and> cl_after_send B ret es \<and> cl_submits B es)"
| "cl_submits B (e # es) = cl_submits B es"

text \<open>
  \<open>sends_open_iterations\<close> holds of a trace when each of its \<open>send\<close> calls directly
  follows the two readings of the clock that open an iteration of the client's loop:
  the one of the loop test and the one stored in \<open>send_start\<close>.
\<close>

definition opened :: "event option \<Rightarrow> event option \<Rightarrow> bool" where
  "opened p2 p1 =
     (case p2 of
        None \<Rightarrow> False
      | Some a \<Rightarrow> (case p1 of None \<Rightarrow> False | Some b \<Rightarrow> is_time_sec a \<and> is_time_us b))"

fun opens_from :: "event option \<Rightarrow> event option \<Rightarrow> event list \<Rightarrow> bool" where
  "opens_from p2 p1 [] = True"
| "opens_from p2 p1 (e # es) =
     ((if is_send e then opened p2 p1 else True) \<and> opens_from p1 (Some e) es)"

definition sends_open_iterations :: "event list \<Rightarrow> bool" where
  "sends_open_iterations es = opens_from None None es"

text \<open>
  What may follow a \<open>send\<close> call of the server that returned \<open>ret\<close>. After a return
  value that is not positive: nothing, the session is over. After a positive one,
  whatever its size: the read of the flag at the head of the loop, then the \<open>recv\<close> of
  the next request. \<open>sv_submits B\<close> holds of a trace when each of its \<open>send\<close> calls
  offers \<open>B\<close> bytes and is followed in this way; \<open>sends_answer_receives B\<close> when each
  \<open>send\<close> call directly follows a \<open>recv\<close> of length \<open>B\<close> that returned a positive
  number of bytes.
\<close>

definition sv_after_send :: "size_t \<Rightarrow> int \<Rightarrow> event list \<Rightarrow> bool" where
  "sv_after_send B ret es =
     (if ret \<le> 0 then es = []
      else (case es of
              [] \<Rightarrow> True
            | [e] \<Rightarrow> is_running e
            | e # e' # es' \<Rightarrow> e = Running True \<and> recv_of B e'))"

fun sv_submits :: "size_t \<Rightarrow> event list \<Rightarrow> bool" where
  "sv_submits B [] = True"
| "sv_submits B (Send len ret # es) = (len = B \<and> sv_after_send B ret es \<and> sv_submits B es)"
| "sv_submits B (e # es) = sv_submits B es"

definition answered :: "size_t \<Rightarrow> event option \<Rightarrow> bool" where
  "answered B p = (case p of None \<Rightarrow> False | Some a \<Rightarrow> received_of B a)"

fun answers_from :: "size_t \<Rightarrow> event option \<Rightarrow> event list \<Rightarrow> bool" where
  "answers_from B p [] = True"
| "answers_from B p (e # es) =
     ((if is_send e then answered B p else True) \<and> answers_from B (Some e) es)"

definition sends_answer_receives :: "size_t \<Rightarrow> event list \<Rightarrow> bool" where
  "sends_answer_receives B es = answers_from B None es"

text \<open>
  What the last two events say about a client session, and the last event about a
  server session, that is about to call \<open>send\<close>.
\<close>

definition cl_hist :: "cl_session \<Rightarrow> event option \<Rightarrow> event option \<Rightarrow> bool" where
  "cl_hist s p2 p1 =
     ((if cl_pc s = CSend then opened p2 p1 else True) \<and>
      (if cl_pc s = CSendStart then (case p1 of None \<Rightarrow> False | Some a \<Rightarrow> is_time_sec a) else True))"

definition sv_hist :: "sv_session \<Rightarrow> event option \<Rightarrow> bool" where
  "sv_hist s p = (if sv_pc s = SSend then answered (sv_buffer_size s) p else True)"

text \<open>The contexts that the joining loop reads.\<close>

fun joined :: "'a option list \<Rightarrow> 'a list" where
  "joined [] = []"
| "joined (None # cs) = joined cs"
| "joined (Some c # cs) = c # joined cs"

text \<open>
  What holds of the zero-copy session's counter in every state: it is not negative,
  positive where a decrementing loop polls, and at the cap where the session waits.
\<close>

definition zc_inv :: "zc_session \<Rightarrow> bool" where
  "zc_inv s =
     (0 \<le> pending_completions s \<and>
      (if zc_pc s = ZPoll \<or> zc_pc s = ZDrain then 0 < pending_completions s else True) \<and>
      (if zc_pc s = ZWait then max_pending \<le> pending_completions s else True))"

text \<open>
  A poll of the completion queue that failed: \<open>handle_zerocopy_completion\<close> returned a
  negative value. Without such polls the session's counter also stays within the cap,
  and below it where the session is about to send.
\<close>

fun poll_failed :: "event \<Rightarrow> bool" where
  "poll_failed (ErrQueue r) = (handle_zerocopy_completion r < 0)"
| "poll_failed e = False"

definition zc_capped :: "zc_session \<Rightarrow> bool" where
  "zc_capped s =
     (pending_completions s \<le> max_pending \<and>
      (if zc_pc s = ZSend \<or> zc_pc s = ZRetry then pending_completions s < max_pending else True))"

section \<open>Properties of the message model\<close>

lemma NUM_STRING_FIELDS_word: "(word_of_nat NUM_STRING_FIELDS :: size_t) = 8"
  by (simp add: NUM_STRING_FIELDS_def)

lemma unat_per_field_size:
  "unat (per_field_size s) = max 1 (unat s div 8)"
proof -
  have d: "unat (s div 8) = unat s div 8"
    by (simp add: unat_div)
  show ?thesis
  proof (cases "s div 8 = 0")
    case True
    then have "unat s div 8 = 0" using d by simp
    with True show ?thesis
      by (simp add: per_field_size_def NUM_STRING_FIELDS_word)
  next
    case False
    then have "unat (s div 8) \<noteq> 0" by (simp add: unat_eq_0)
    then have "1 \<le> unat s div 8" using d by simp
    with False d show ?thesis
      by (simp add: per_field_size_def NUM_STRING_FIELDS_word Let_def max_def)
  qed
qed

lemma memset_fresh: "memset (malloc_block h n) c n = replicate n c"
  by (simp add: memset_def malloc_block_def)

lemma allocate_fields_Some:
  "allocate_fields h per i fs = Some r \<Longrightarrow> i \<le> NUM_STRING_FIELDS \<Longrightarrow>
   r = fs @ map (pattern_field per) [i..<NUM_STRING_FIELDS]"
proof (induction h per i fs rule: allocate_fields.induct)
  case (1 h per i fs)
  show ?case
  proof (cases "i < NUM_STRING_FIELDS")
    case True
    with "1.prems" have ok: "malloc_ok h (Suc i)"
      by (simp add: allocate_fields.simps [of h per i fs] split: if_splits)
    from True ok "1.prems" have
      "allocate_fields h per (Suc i) (fs @ [pattern_field per i]) = Some r"
      by (simp add: allocate_fields.simps [of h per i fs] memset_fresh pattern_field_def)
    with "1.IH" True ok have "r = (fs @ [pattern_field per i]) @ map (pattern_field per) [Suc i..<NUM_STRING_FIELDS]"
      by (simp add: memset_fresh pattern_field_def)
    with True show ?thesis by (simp add: upt_conv_Cons)
  next
    case False
    then have "allocate_fields h per i fs = Some fs"
      by (simp add: allocate_fields.simps [of h per i fs])
    with False "1.prems" show ?thesis by simp
  qed
qed

lemma serialize_loop_eq:
  "i \<le> NUM_STRING_FIELDS \<Longrightarrow> length buffer = NUM_STRING_FIELDS * unat per \<Longrightarrow>
   ptr = i * unat per \<Longrightarrow>
   length (field msg) = NUM_STRING_FIELDS \<Longrightarrow> (\<forall>f \<in> set (field msg). unat per \<le> length f) \<Longrightarrow>
   serialize_loop msg per i ptr buffer =
     take ptr buffer @ concat (map (\<lambda>k. take (unat per) (field msg ! k)) [i..<NUM_STRING_FIELDS])"
proof (induction msg per i ptr buffer rule: serialize_loop.induct)
  case (1 msg per i ptr buffer)
  show ?case
  proof (cases "i < NUM_STRING_FIELDS")
    case True
    let ?n = "unat per"
    let ?b = "memcpy_at buffer ptr (field msg ! i) ?n"
    have fi: "?n \<le> length (field msg ! i)"
      using "1.prems" True by simp
    have "Suc i * ?n \<le> NUM_STRING_FIELDS * ?n"
      using True by (intro mult_le_mono1) simp
    then have bound: "ptr + ?n \<le> length buffer"
      using "1.prems" by simp
    have lenb: "length ?b = NUM_STRING_FIELDS * ?n"
      using bound fi "1.prems" by (simp add: memcpy_at_def)
    have tk: "take (ptr + ?n) ?b = take ptr buffer @ take ?n (field msg ! i)"
      using bound fi by (simp add: memcpy_at_def)
    have "serialize_loop msg per i ptr buffer = serialize_loop msg per (Suc i) (ptr + ?n) ?b"
      using True by (simp add: serialize_loop.simps [of msg per i ptr buffer])
    also have "\<dots> = take (ptr + ?n) ?b @ concat (map (\<lambda>k. take ?n (field msg ! k)) [Suc i..<NUM_STRING_FIELDS])"
      using "1.IH" [OF True] True lenb "1.prems" by simp
    finally show ?thesis using True tk by (simp add: upt_conv_Cons)
  next
    case False
    then have "serialize_loop msg per i ptr buffer = buffer"
      by (simp add: serialize_loop.simps [of msg per i ptr buffer])
    with False "1.prems" show ?thesis by simp
  qed
qed

lemma length_concat_blocks:
  "length (concat (map (\<lambda>k. replicate n (g k)) [0..<m])) = m * n"
  by (induction m) simp_all

lemma nth_concat_blocks:
  "j < m * n \<Longrightarrow> concat (map (\<lambda>k. replicate n (g k)) [0..<m]) ! j = g (j div n)"
proof (induction m)
  case 0
  then show ?case by simp
next
  case (Suc m)
  show ?case
  proof (cases "j < m * n")
    case True
    with Suc.IH show ?thesis
      by (simp add: nth_append length_concat_blocks)
  next
    case False
    then have ge: "m * n \<le> j" by simp
    from Suc.prems have lt: "j < m * n + n" by (simp add: add.commute)
    have npos: "0 < n" using Suc.prems by (cases n) auto
    have "j div n = m"
    proof (rule antisym)
      from lt have "j < Suc m * n" by (simp add: add.commute)
      then have "j div n < Suc m" using npos by (simp add: div_less_iff_less_mult)
      then show "j div n \<le> m" by simp
      from ge show "m \<le> j div n" using npos by (simp add: less_eq_div_iff_mult_less_eq)
    qed
    moreover have "j - m * n < n" using lt ge by simp
    ultimately show ?thesis using False
      by (simp add: nth_append length_concat_blocks)
  qed
qed

lemma allocate_message_fields:
  assumes "allocate_message h S = Some msg"
  shows "field msg = map (pattern_field (per_field_size S)) [0..<NUM_STRING_FIELDS]"
proof -
  from assms obtain fs where fs: "allocate_fields h (per_field_size S) 0 [] = Some fs"
    and m: "msg = \<lparr>field = fs\<rparr>"
    by (auto simp: allocate_message_def split: if_splits option.splits)
  from allocate_fields_Some [OF fs] have "fs = map (pattern_field (per_field_size S)) [0..<NUM_STRING_FIELDS]"
    by simp
  with m show ?thesis by simp
qed

lemma unat_total_size:
  "unat (per_field_size S * word_of_nat NUM_STRING_FIELDS) = unat (per_field_size S) * 8"
proof -
  have a: "unat S < 2 ^ LENGTH(64)" by (rule unsigned_less)
  have b: "unat S div 8 * 8 \<le> unat S" by (rule div_times_less_eq_dividend)
  have c: "(8::nat) < 2 ^ LENGTH(64)" by simp
  have "max 1 (unat S div 8) * 8 < 2 ^ LENGTH(64)"
  proof (cases "1 \<le> unat S div 8")
    case True
    then have "max 1 (unat S div 8) = unat S div 8" by simp
    with a b show ?thesis by linarith
  next
    case False
    then have "max 1 (unat S div 8) = 1" by simp
    with c show ?thesis by simp
  qed
  then have "unat (per_field_size S) * unat (8 :: size_t) < 2 ^ LENGTH(64)"
    by (simp only: unat_per_field_size) simp
  then have "unat (per_field_size S * 8) = unat (per_field_size S) * unat (8 :: size_t)"
    by (rule unat_mult_lem [THEN iffD1])
  then show ?thesis by (simp add: NUM_STRING_FIELDS_word)
qed

lemma serialize_message_buffer:
  assumes len: "length (field msg) = NUM_STRING_FIELDS"
    and big: "\<forall>f \<in> set (field msg). unat (per_field_size S) \<le> length f"
    and ser: "fst (serialize_message h msg S) = Some buf"
  shows "buf = concat (map (\<lambda>k. take (unat (per_field_size S)) (field msg ! k)) [0..<NUM_STRING_FIELDS])"
proof -
  let ?per = "per_field_size S"
  let ?blk = "malloc_block h (unat (?per * word_of_nat NUM_STRING_FIELDS))"
  from ser have b: "buf = serialize_loop msg ?per 0 0 ?blk"
    by (auto simp: serialize_message_def Let_def split: if_splits)
  have l: "length ?blk = NUM_STRING_FIELDS * unat ?per"
    using unat_total_size [of S] by (simp add: malloc_block_def NUM_STRING_FIELDS_def)
  from serialize_loop_eq [of 0 ?blk ?per 0 msg, OF _ l _ len big] b
  show ?thesis by simp
qed

lemma gather_setup_iov:
  "gather (setup_iov msg per) = concat (map (\<lambda>k. take (unat per) (field msg ! k)) [0..<NUM_STRING_FIELDS])"
  by (simp add: gather_def setup_iov_def comp_def)


lemma allocate_fields_total:
  "\<forall>k. i < k \<and> k \<le> NUM_STRING_FIELDS \<longrightarrow> malloc_ok h k \<Longrightarrow>
   \<exists>r. allocate_fields h per i fs = Some r"
proof (induction h per i fs rule: allocate_fields.induct)
  case (1 h per i fs)
  show ?case
  proof (cases "i < NUM_STRING_FIELDS")
    case True
    with "1.prems" have ok: "malloc_ok h (Suc i)" by simp
    from "1.prems" have "\<forall>k. Suc i < k \<and> k \<le> NUM_STRING_FIELDS \<longrightarrow> malloc_ok h k" by simp
    from "1.IH" [OF True _ this] ok True show ?thesis
      by (simp add: allocate_fields.simps [of h per i fs])
  next
    case False
    then show ?thesis by (simp add: allocate_fields.simps [of h per i fs])
  qed
qed

lemma allocate_message_total:
  assumes "\<forall>k \<le> NUM_STRING_FIELDS. malloc_ok h k"
  shows "allocate_message h S =
           Some \<lparr>field = map (pattern_field (per_field_size S)) [0..<NUM_STRING_FIELDS]\<rparr>"
proof -
  from assms have "\<forall>k. 0 < k \<and> k \<le> NUM_STRING_FIELDS \<longrightarrow> malloc_ok h k" by simp
  from allocate_fields_total [OF this] obtain r
    where r: "allocate_fields h (per_field_size S) 0 [] = Some r" by blast
  with assms have m: "allocate_message h S = Some \<lparr>field = r\<rparr>"
    by (simp add: allocate_message_def)
  from allocate_message_fields [OF m] m show ?thesis by simp
qed

lemma per_field_size_1: "unat (per_field_size 1) = 1"
  by (simp add: unat_per_field_size)

lemma per_field_size_16: "unat (per_field_size 16) = 2"
  by (simp add: unat_per_field_size)

lemma upt_0_8: "[0..<8] = [0, 1, 2, 3, 4, 5, 6, 7]"
  by (simp add: upt_rec)

lemma upt_8: "[0..<NUM_STRING_FIELDS] = [0, 1, 2, 3, 4, 5, 6, 7]"
  by (simp add: NUM_STRING_FIELDS_def upt_0_8)

lemma allocate_1:
  "allocate_message all_ok 1 = Some \<lparr>field = [[65], [66], [67], [68], [69], [70], [71], [72]]\<rparr>"
  by (simp add: allocate_message_total all_ok_def pattern_field_def per_field_size_1 upt_8)

lemma allocate_16:
  "allocate_message all_ok 16 =
     Some \<lparr>field = [[65, 65], [66, 66], [67, 67], [68, 68], [69, 69], [70, 70], [71, 71], [72, 72]]\<rparr>"
  by (simp add: allocate_message_total all_ok_def pattern_field_def per_field_size_16 upt_8
      numeral_2_eq_2)

lemma serialize_1:
  "serialize_message all_ok \<lparr>field = [[65], [66], [67], [68], [69], [70], [71], [72]]\<rparr> 1 =
     (Some [65, 66, 67, 68, 69, 70, 71, 72], 8)"
proof -
  let ?m = "\<lparr>field = [[65], [66], [67], [68], [69], [70], [71], [72 :: byte]]\<rparr>"
  obtain b t where bt: "serialize_message all_ok ?m 1 = (b, t)" by (cases "serialize_message all_ok ?m 1")
  have t: "t = per_field_size 1 * word_of_nat NUM_STRING_FIELDS"
    using bt by (auto simp: serialize_message_def Let_def split: if_splits)
  have "unat t = 8" unfolding t by (simp add: unat_total_size per_field_size_1)
  then have t8: "t = 8" by (simp add: word_unat_eq_iff)
  from bt obtain buf where b: "b = Some buf"
    by (auto simp: serialize_message_def Let_def all_ok_def split: if_splits)
  have "fst (serialize_message all_ok ?m 1) = Some buf" using bt b by simp
  from serialize_message_buffer [OF _ _ this]
  have "buf = [65, 66, 67, 68, 69, 70, 71, 72]"
    by (simp add: per_field_size_1 upt_0_8 NUM_STRING_FIELDS_def)
  with bt b t8 show ?thesis by simp
qed


lemma serialize_16:
  "serialize_message all_ok
     \<lparr>field = [[65, 65], [66, 66], [67, 67], [68, 68], [69, 69], [70, 70], [71, 71], [72, 72]]\<rparr> 16 =
     (Some [65, 65, 66, 66, 67, 67, 68, 68, 69, 69, 70, 70, 71, 71, 72, 72], 16)"
proof -
  let ?m = "\<lparr>field = [[65, 65], [66, 66], [67, 67], [68, 68], [69, 69], [70, 70], [71, 71], [72, 72 :: byte]]\<rparr>"
  obtain b t where bt: "serialize_message all_ok ?m 16 = (b, t)"
    by (cases "serialize_message all_ok ?m 16")
  have t: "t = per_field_size 16 * word_of_nat NUM_STRING_FIELDS"
    using bt by (auto simp: serialize_message_def Let_def split: if_splits)
  have "unat t = 16" unfolding t by (simp add: unat_total_size per_field_size_16)
  then have t16: "t = 16" by (simp add: word_unat_eq_iff)
  from bt obtain buf where b: "b = Some buf"
    by (auto simp: serialize_message_def Let_def all_ok_def split: if_splits)
  have "fst (serialize_message all_ok ?m 16) = Some buf" using bt b by simp
  from serialize_message_buffer [OF _ _ this]
  have "buf = [65, 65, 66, 66, 67, 67, 68, 68, 69, 69, 70, 70, 71, 71, 72, 72]"
    by (simp add: per_field_size_16 upt_0_8 NUM_STRING_FIELDS_def)
  with bt b t16 show ?thesis by simp
qed

lemma allocated_shape:
  assumes "allocate_message h S = Some msg"
  shows "length (field msg) = NUM_STRING_FIELDS"
    and "\<forall>f \<in> set (field msg). length f = unat (per_field_size S)"
  using allocate_message_fields [OF assms] by (auto simp: pattern_field_def)

lemma snd_serialize_message:
  "snd (serialize_message h msg S) = per_field_size S * word_of_nat NUM_STRING_FIELDS"
  by (simp add: serialize_message_def Let_def)

lemma serialized_allocated:
  assumes a: "allocate_message h S = Some msg"
    and s: "fst (serialize_message h' msg S) = Some buf"
  shows "buf = concat (map (\<lambda>k. replicate (unat (per_field_size S)) (word_of_nat (65 + k)))
              [0..<NUM_STRING_FIELDS])"
proof -
  let ?n = "unat (per_field_size S)"
  have big: "\<forall>f \<in> set (field msg). ?n \<le> length f"
    using allocated_shape(2) [OF a] by simp
  have "map (\<lambda>k. take ?n (field msg ! k)) [0..<NUM_STRING_FIELDS] =
        map (\<lambda>k. replicate ?n (word_of_nat (65 + k))) [0..<NUM_STRING_FIELDS]"
  proof (rule map_cong [OF refl])
    fix k assume "k \<in> set [0..<NUM_STRING_FIELDS]"
    then have "k < NUM_STRING_FIELDS" by simp
    then have "field msg ! k = replicate ?n (word_of_nat (65 + k))"
      by (simp add: allocate_message_fields [OF a] pattern_field_def)
    then show "take ?n (field msg ! k) = replicate ?n (word_of_nat (65 + k))" by simp
  qed
  with serialize_message_buffer [OF allocated_shape(1) [OF a] big s] show ?thesis
    by simp
qed

text \<open>
  Claim C1, as stated, fails for requests below 8 bytes. For a request of \<open>S = 1\<close> byte
  the message has eight one-byte segments and the serialized total is 8 bytes, which is
  more than the request: the guard \<open>if (per_field_size == 0) per_field_size = 1\<close>
  rounds the segment size up, not down.
\<close>

theorem effective_total_exceeds_small_request:
  "allocate_message all_ok 1 = Some \<lparr>field = [[65], [66], [67], [68], [69], [70], [71], [72]]\<rparr> \<and>
   serialize_message all_ok \<lparr>field = [[65], [66], [67], [68], [69], [70], [71], [72]]\<rparr> 1 =
     (Some [65, 66, 67, 68, 69, 70, 71, 72], 8) \<and>
   \<not> unat (snd (serialize_message all_ok
          \<lparr>field = [[65], [66], [67], [68], [69], [70], [71], [72]]\<rparr> 1)) \<le> unat (1 :: size_t)"
  by (simp add: allocate_1 serialize_1)

text \<open>
  Claim C1, amended. For every requested size \<open>S\<close>, a successfully allocated message
  has 8 segments of \<open>max(1, S / 8)\<close> bytes each (integer division); the total that
  \<open>serialize_message\<close> reports, and the length of the buffer it builds, are
  \<open>max(1, S / 8) * 8\<close> (the 64-bit product does not wrap). That total is at most \<open>S\<close>
  when \<open>S \<ge> 8\<close>, and is 8, more than \<open>S\<close>, when \<open>S < 8\<close>.
\<close>

theorem segment_sizes:
  "allocate_message h S = Some msg \<Longrightarrow>
     length (field msg) = 8 \<and>
     (\<forall>f \<in> set (field msg). length f = max 1 (unat S div 8)) \<and>
     unat (snd (serialize_message h' msg S)) = max 1 (unat S div 8) * 8 \<and>
     (\<forall>buf. fst (serialize_message h' msg S) = Some buf \<longrightarrow>
        length buf = max 1 (unat S div 8) * 8) \<and>
     (8 \<le> unat S \<longrightarrow> unat (snd (serialize_message h' msg S)) \<le> unat S) \<and>
     (unat S < 8 \<longrightarrow> unat (snd (serialize_message h' msg S)) = 8)"
proof -
  assume a: "allocate_message h S = Some msg"
  let ?p = "max 1 (unat S div 8)"
  have l: "length (field msg) = 8"
    using allocated_shape(1) [OF a] by (simp add: NUM_STRING_FIELDS_def)
  have f: "\<forall>f \<in> set (field msg). length f = ?p"
    using allocated_shape(2) [OF a] by (simp add: unat_per_field_size)
  have t: "unat (snd (serialize_message h' msg S)) = ?p * 8"
    by (simp only: snd_serialize_message unat_total_size unat_per_field_size)
  have b: "\<forall>buf. fst (serialize_message h' msg S) = Some buf \<longrightarrow> length buf = ?p * 8"
  proof (intro allI impI)
    fix buf assume s: "fst (serialize_message h' msg S) = Some buf"
    have "buf = concat (map (\<lambda>k. replicate (unat (per_field_size S)) (word_of_nat (65 + k) :: byte))
              [0..<NUM_STRING_FIELDS])"
      by (rule serialized_allocated [OF a s])
    then show "length buf = ?p * 8"
      by (simp only: length_concat_blocks unat_per_field_size NUM_STRING_FIELDS_def mult.commute)
  qed
  have d: "unat S div 8 * 8 \<le> unat S" by (rule div_times_less_eq_dividend)
  have g: "8 \<le> unat S \<longrightarrow> unat (snd (serialize_message h' msg S)) \<le> unat S"
  proof
    assume "8 \<le> unat S"
    then have "1 \<le> unat S div 8" by (simp add: less_eq_div_iff_mult_less_eq)
    then have "?p = unat S div 8" by simp
    with t d show "unat (snd (serialize_message h' msg S)) \<le> unat S" by simp
  qed
  have s: "unat S < 8 \<longrightarrow> unat (snd (serialize_message h' msg S)) = 8"
    using t by simp
  from l f t b g s show ?thesis by blast
qed

text \<open>Claim C1, amended, at \<open>S = 16\<close> on a heap with no failure.\<close>

theorem segment_sizes_witness:
  "allocate_message all_ok 16 =
     Some \<lparr>field = [[65, 65], [66, 66], [67, 67], [68, 68], [69, 69], [70, 70], [71, 71], [72, 72]]\<rparr> \<and>
   unat (snd (serialize_message all_ok
     \<lparr>field = [[65, 65], [66, 66], [67, 67], [68, 68], [69, 69], [70, 70], [71, 71], [72, 72]]\<rparr> 16)) = 16 \<and>
   length (the (fst (serialize_message all_ok
     \<lparr>field = [[65, 65], [66, 66], [67, 67], [68, 68], [69, 69], [70, 70], [71, 71], [72, 72]]\<rparr> 16))) = 16"
proof -
  let ?m = "\<lparr>field = [[65, 65], [66, 66], [67, 67], [68, 68], [69, 69], [70, 70], [71, 71], [72, 72 :: byte]]\<rparr>"
  have b: "fst (serialize_message all_ok ?m 16) =
      Some (the (fst (serialize_message all_ok ?m 16)))"
    by (simp add: serialize_16)
  from segment_sizes [OF allocate_16, of all_ok] b allocate_16 show ?thesis
    by simp
qed

text \<open>The totals for the sizes the specification lists: 1, 7, 8, 1023, 1024, 1000000.\<close>

lemma effective_total_examples:
  "map (\<lambda>S. unat (snd (serialize_message h msg S))) [1, 7, 8, 1023, 1024, 1000000] =
     [8, 8, 8, 1016, 1024, 1000000]"
  by (simp add: snd_serialize_message unat_total_size unat_per_field_size)


text \<open>
  The descriptors \<open>setup_iov\<close> builds for an allocated message: one per segment, in
  order, each with the length of the block it points to.
\<close>

lemma setup_iov_blocks:
  assumes "allocate_message h S = Some msg"
  shows "setup_iov msg (per_field_size S) =
           map (\<lambda>f. \<lparr>iov_base = f, iov_len = length f\<rparr>) (field msg)"
proof -
  let ?n = "unat (per_field_size S)"
  have l: "length (field msg) = NUM_STRING_FIELDS" by (rule allocated_shape(1) [OF assms])
  have "map (\<lambda>i. \<lparr>iov_base = field msg ! i, iov_len = ?n\<rparr>) [0..<NUM_STRING_FIELDS] =
        map (\<lambda>i. \<lparr>iov_base = field msg ! i, iov_len = length (field msg ! i)\<rparr>)
          [0..<length (field msg)]"
  proof (simp only: l, rule map_cong [OF refl])
    fix i assume "i \<in> set [0..<NUM_STRING_FIELDS]"
    then have "field msg ! i \<in> set (field msg)" using l by simp
    with allocated_shape(2) [OF assms] have "length (field msg ! i) = ?n" by blast
    then show "\<lparr>iov_base = field msg ! i, iov_len = ?n\<rparr> =
        \<lparr>iov_base = field msg ! i, iov_len = length (field msg ! i)\<rparr>" by simp
  qed
  also have "\<dots> = map (\<lambda>f. \<lparr>iov_base = f, iov_len = length f\<rparr>)
      (map ((!) (field msg)) [0..<length (field msg)])"
    by (simp only: map_map comp_def)
  also have "\<dots> = map (\<lambda>f. \<lparr>iov_base = f, iov_len = length f\<rparr>) (field msg)"
    by (simp only: map_nth)
  finally show ?thesis by (simp add: setup_iov_def)
qed

text \<open>
  Claim C9. For every message size \<open>S\<close>, the scatter-gather strategy hands \<open>sendmsg\<close>
  eight descriptors, one per segment of the message and in the order of the segments;
  the \<open>iov_len\<close> of each descriptor is the length of the block it points to, which is
  \<open>per_field_size\<close>, so the descriptors cover the segments exactly and their lengths add
  up to the length of the contiguous buffer. The bytes gathered from the descriptors,
  which are the segments concatenated in order, are the bytes of the contiguous buffer
  that \<open>serialize_message\<close> builds from the same message for the full-copy strategy,
  whatever the uninitialised content of the staging buffer was.
\<close>

theorem scatter_gather_wire_bytes:
  assumes "allocate_message h S = Some msg"
    and "fst (serialize_message h' msg S) = Some buf"
  shows "gather (setup_iov msg (per_field_size S)) = buf \<and>
     length (setup_iov msg (per_field_size S)) = NUM_STRING_FIELDS \<and>
     map iov_base (setup_iov msg (per_field_size S)) = field msg \<and>
     (\<forall>v \<in> set (setup_iov msg (per_field_size S)).
        iov_len v = length (iov_base v) \<and> iov_len v = unat (per_field_size S)) \<and>
     sum_list (map iov_len (setup_iov msg (per_field_size S))) = length buf \<and>
     concat (field msg) = buf"
proof -
  let ?iov = "setup_iov msg (per_field_size S)"
  have big: "\<forall>f \<in> set (field msg). unat (per_field_size S) \<le> length f"
    using allocated_shape(2) [OF assms(1)] by simp
  from serialize_message_buffer [OF allocated_shape(1) [OF assms(1)] big assms(2)]
  have g: "gather ?iov = buf" by (simp only: gather_setup_iov)
  note b = setup_iov_blocks [OF assms(1)]
  have n: "length ?iov = NUM_STRING_FIELDS" by (simp add: setup_iov_def)
  have m: "map iov_base ?iov = field msg" by (simp add: b comp_def)
  have v: "\<forall>v \<in> set ?iov. iov_len v = length (iov_base v) \<and> iov_len v = unat (per_field_size S)"
    using allocated_shape(2) [OF assms(1)] by (auto simp: b)
  have c: "concat (field msg) = buf"
    using g by (simp add: b gather_def comp_def)
  have s: "sum_list (map iov_len ?iov) = length buf"
    using c [symmetric] by (simp add: b comp_def length_concat)
  from g n m v s c show ?thesis by blast
qed

text \<open>Claim C9 at \<open>S = 16\<close> on a heap with no failure.\<close>

theorem scatter_gather_wire_bytes_witness:
  "allocate_message all_ok 16 =
     Some \<lparr>field = [[65, 65], [66, 66], [67, 67], [68, 68], [69, 69], [70, 70], [71, 71], [72, 72]]\<rparr> \<and>
   fst (serialize_message all_ok
     \<lparr>field = [[65, 65], [66, 66], [67, 67], [68, 68], [69, 69], [70, 70], [71, 71], [72, 72]]\<rparr> 16) =
     Some [65, 65, 66, 66, 67, 67, 68, 68, 69, 69, 70, 70, 71, 71, 72, 72] \<and>
   gather (setup_iov
     \<lparr>field = [[65, 65], [66, 66], [67, 67], [68, 68], [69, 69], [70, 70], [71, 71], [72, 72]]\<rparr>
     (per_field_size 16)) = [65, 65, 66, 66, 67, 67, 68, 68, 69, 69, 70, 70, 71, 71, 72, 72] \<and>
   setup_iov
     \<lparr>field = [[65, 65], [66, 66], [67, 67], [68, 68], [69, 69], [70, 70], [71, 71], [72, 72]]\<rparr>
     (per_field_size 16) =
     [\<lparr>iov_base = [65, 65], iov_len = 2\<rparr>, \<lparr>iov_base = [66, 66], iov_len = 2\<rparr>,
      \<lparr>iov_base = [67, 67], iov_len = 2\<rparr>, \<lparr>iov_base = [68, 68], iov_len = 2\<rparr>,
      \<lparr>iov_base = [69, 69], iov_len = 2\<rparr>, \<lparr>iov_base = [70, 70], iov_len = 2\<rparr>,
      \<lparr>iov_base = [71, 71], iov_len = 2\<rparr>, \<lparr>iov_base = [72, 72], iov_len = 2\<rparr>] \<and>
   sum_list (map iov_len (setup_iov
     \<lparr>field = [[65, 65], [66, 66], [67, 67], [68, 68], [69, 69], [70, 70], [71, 71], [72, 72]]\<rparr>
     (per_field_size 16))) = 16"
proof -
  let ?m = "\<lparr>field = [[65, 65], [66, 66], [67, 67], [68, 68], [69, 69], [70, 70], [71, 71], [72, 72 :: byte]]\<rparr>"
  have s: "fst (serialize_message all_ok ?m 16) =
      Some [65, 65, 66, 66, 67, 67, 68, 68, 69, 69, 70, 70, 71, 71, 72, 72]"
    by (simp add: serialize_16)
  have i: "setup_iov ?m (per_field_size 16) =
     [\<lparr>iov_base = [65, 65], iov_len = 2\<rparr>, \<lparr>iov_base = [66, 66], iov_len = 2\<rparr>,
      \<lparr>iov_base = [67, 67], iov_len = 2\<rparr>, \<lparr>iov_base = [68, 68], iov_len = 2\<rparr>,
      \<lparr>iov_base = [69, 69], iov_len = 2\<rparr>, \<lparr>iov_base = [70, 70], iov_len = 2\<rparr>,
      \<lparr>iov_base = [71, 71], iov_len = 2\<rparr>, \<lparr>iov_base = [72, 72], iov_len = 2\<rparr>]"
    by (simp add: setup_iov_def NUM_STRING_FIELDS_def upt_0_8 unat_per_field_size)
  from scatter_gather_wire_bytes [OF allocate_16 s]
  have g: "gather (setup_iov ?m (per_field_size 16)) =
      [65, 65, 66, 66, 67, 67, 68, 68, 69, 69, 70, 70, 71, 71, 72, 72]"
    and l: "sum_list (map iov_len (setup_iov ?m (per_field_size 16))) = 16"
    by simp_all
  from allocate_16 s g i l show ?thesis by blast
qed

text \<open>
  Claim C10. For every size \<open>S\<close>, a successfully allocated message has 8 segments,
  segment \<open>i\<close> filled entirely with the byte \<open>'A' + i\<close>; byte \<open>j\<close> of its serialized
  buffer is \<open>'A' + j / per_field_size\<close>; and any two successful allocations for the same
  \<open>S\<close> give the same message, whatever the heap.
\<close>

theorem payload_pattern:
  "allocate_message h S = Some msg \<Longrightarrow>
     length (field msg) = NUM_STRING_FIELDS \<and>
     (\<forall>i < NUM_STRING_FIELDS.
        field msg ! i = replicate (unat (per_field_size S)) (word_of_nat (65 + i))) \<and>
     (\<forall>h' buf. fst (serialize_message h' msg S) = Some buf \<longrightarrow>
        length buf = NUM_STRING_FIELDS * unat (per_field_size S) \<and>
        (\<forall>j < length buf. buf ! j = word_of_nat (65 + j div unat (per_field_size S)))) \<and>
     (\<forall>h' msg'. allocate_message h' S = Some msg' \<longrightarrow> msg' = msg)"
proof -
  assume a: "allocate_message h S = Some msg"
  let ?n = "unat (per_field_size S)"
  have f: "field msg = map (pattern_field (per_field_size S)) [0..<NUM_STRING_FIELDS]"
    by (rule allocate_message_fields [OF a])
  have p1: "length (field msg) = NUM_STRING_FIELDS"
    by (rule allocated_shape(1) [OF a])
  have p2: "\<forall>i < NUM_STRING_FIELDS. field msg ! i = replicate ?n (word_of_nat (65 + i))"
    by (simp add: f pattern_field_def)
  have p3: "\<forall>h' buf. fst (serialize_message h' msg S) = Some buf \<longrightarrow>
        length buf = NUM_STRING_FIELDS * ?n \<and>
        (\<forall>j < length buf. buf ! j = word_of_nat (65 + j div ?n))"
  proof (intro allI impI)
    fix h' buf assume s: "fst (serialize_message h' msg S) = Some buf"
    have b: "buf = concat (map (\<lambda>k. replicate ?n (word_of_nat (65 + k) :: byte))
                [0..<NUM_STRING_FIELDS])"
      by (rule serialized_allocated [OF a s])
    have l: "length buf = NUM_STRING_FIELDS * ?n"
      by (simp only: b length_concat_blocks)
    have "\<forall>j < length buf. buf ! j = word_of_nat (65 + j div ?n)"
    proof (intro allI impI)
      fix j assume "j < length buf"
      then have "j < NUM_STRING_FIELDS * ?n" by (simp only: l)
      then show "buf ! j = word_of_nat (65 + j div ?n)"
        unfolding b by (rule nth_concat_blocks)
    qed
    with l show "length buf = NUM_STRING_FIELDS * ?n \<and>
        (\<forall>j < length buf. buf ! j = word_of_nat (65 + j div ?n))" by simp
  qed
  have p4: "\<forall>h' msg'. allocate_message h' S = Some msg' \<longrightarrow> msg' = msg"
  proof (intro allI impI)
    fix h' msg' assume "allocate_message h' S = Some msg'"
    from allocate_message_fields [OF this] f show "msg' = msg" by simp
  qed
  from p1 p2 p3 p4 show ?thesis by blast
qed

text \<open>Claim C10 at \<open>S = 16\<close> on a heap with no failure.\<close>

theorem payload_pattern_witness:
  "allocate_message all_ok 16 =
     Some \<lparr>field = [[65, 65], [66, 66], [67, 67], [68, 68], [69, 69], [70, 70], [71, 71], [72, 72]]\<rparr> \<and>
   length (field \<lparr>field = [[65, 65], [66, 66], [67, 67], [68, 68], [69, 69], [70, 70], [71, 71],
     [72, 72 :: byte]]\<rparr>) = NUM_STRING_FIELDS \<and>
   fst (serialize_message all_ok
     \<lparr>field = [[65, 65], [66, 66], [67, 67], [68, 68], [69, 69], [70, 70], [71, 71], [72, 72]]\<rparr> 16) =
     Some [65, 65, 66, 66, 67, 67, 68, 68, 69, 69, 70, 70, 71, 71, 72, 72] \<and>
   length [65, 65, 66, 66, 67, 67, 68, 68, 69, 69, 70, 70, 71, 71, 72, 72 :: byte] =
     NUM_STRING_FIELDS * unat (per_field_size 16)"
proof -
  let ?m = "\<lparr>field = [[65, 65], [66, 66], [67, 67], [68, 68], [69, 69], [70, 70], [71, 71], [72, 72 :: byte]]\<rparr>"
  have s: "fst (serialize_message all_ok ?m 16) =
      Some [65, 65, 66, 66, 67, 67, 68, 68, 69, 69, 70, 70, 71, 71, 72, 72]"
    by (simp add: serialize_16)
  from payload_pattern [OF allocate_16] have
    "length (field ?m) = NUM_STRING_FIELDS"
    and "\<forall>h' buf. fst (serialize_message h' ?m 16) = Some buf \<longrightarrow>
        length buf = NUM_STRING_FIELDS * unat (per_field_size 16) \<and>
        (\<forall>j < length buf. buf ! j = word_of_nat (65 + j div unat (per_field_size 16)))"
    by blast+
  with s allocate_16 show ?thesis by blast
qed

section \<open>Properties of the two-copy client\<close>

lemma total_1024: "per_field_size 1024 * word_of_nat NUM_STRING_FIELDS = 1024"
proof -
  have "unat (per_field_size 1024 * word_of_nat NUM_STRING_FIELDS) = 1024"
    by (simp add: unat_total_size unat_per_field_size)
  then show ?thesis by (simp add: word_unat_eq_iff)
qed

lemma serialize_message_cases:
  "serialize_message h msg S =
     (if malloc_ok h 0
      then (Some (serialize_loop msg (per_field_size S) 0 0
              (malloc_block h (unat (per_field_size S * word_of_nat NUM_STRING_FIELDS)))),
            per_field_size S * word_of_nat NUM_STRING_FIELDS)
      else (None, per_field_size S * word_of_nat NUM_STRING_FIELDS))"
  by (simp add: serialize_message_def Let_def)

lemma cl_client_thread_start_cases:
  "cl_pc (cl_client_thread_start h c) = CClosed \<or>
   (cl_pc (cl_client_thread_start h c) = CStart \<and> cl_ctx (cl_client_thread_start h c) = c \<and>
    cl_buffer_size (cl_client_thread_start h c) = per_field_size (msg_size c) * word_of_nat NUM_STRING_FIELDS)"
  by (simp add: cl_client_thread_start_def serialize_message_cases split: option.splits)

lemma cl_client_thread_start_ctx: "cl_ctx (cl_client_thread_start h c) = c"
  by (simp add: cl_client_thread_start_def serialize_message_cases split: option.splits)

lemma cl_client_thread_start_all_ok:
  "cl_client_thread_start all_ok c =
     \<lparr>cl_pc = CStart, cl_ctx = c,
      cl_buffer_size = per_field_size (msg_size c) * word_of_nat NUM_STRING_FIELDS,
      end_time = 0, send_start = 0, total_recv = 0\<rparr>"
  by (simp add: cl_client_thread_start_def serialize_message_cases allocate_message_total all_ok_def heap_after_def)

lemma cl_closed_stuck: "cl_pc s = CClosed \<Longrightarrow> cl_client_thread s e = None"
  by (simp add: cl_client_thread_def split: event.splits)

lemma cl_client_thread_send:
  assumes "cl_client_thread s (Send len ret) = Some s'"
  shows "len = cl_buffer_size s \<and> cl_pc s' \<noteq> CSend \<and> cl_buffer_size s' = cl_buffer_size s \<and>
     bytes_sent (cl_ctx s') = bytes_sent (cl_ctx s) + (if ret > 0 then word_of_int ret else 0) \<and>
     messages_sent (cl_ctx s') = messages_sent (cl_ctx s) + (if ret > 0 then 1 else 0)"
  using assms
  by (cases "cl_pc s") (auto simp: cl_client_thread_def cl_enter_recv_def split: if_splits)

lemma cl_client_thread_other:
  assumes "cl_client_thread s e = Some s'" and "\<not> is_send e"
  shows "cl_buffer_size s' = cl_buffer_size s \<and>
     bytes_sent (cl_ctx s') = bytes_sent (cl_ctx s) \<and>
     messages_sent (cl_ctx s') = messages_sent (cl_ctx s)"
  using assms
  by (cases "cl_pc s"; cases e) (auto simp: cl_client_thread_def cl_enter_recv_def split: if_splits)

lemma cl_client_thread_not_at_send:
  "cl_pc s \<noteq> CSend \<Longrightarrow> cl_client_thread s (Send len ret) = None"
  by (cases "cl_pc s") (auto simp: cl_client_thread_def)


lemma is_send_cases: "is_send e \<Longrightarrow> \<exists>len ret. e = Send len ret"
  by (cases e) simp_all

lemma sent_bytes_other: "\<not> is_send e \<Longrightarrow> sent_bytes (e # es) = sent_bytes es"
  by (cases e) simp_all

lemma not_send_neq: "\<not> is_send e \<Longrightarrow> e \<noteq> Send len ret"
  by (cases e) simp_all

lemma cl_run_accounting:
  "run cl_client_thread s es = Some s' \<Longrightarrow>
     cl_buffer_size s' = cl_buffer_size s \<and>
     (\<forall>len ret. Send len ret \<in> set es \<longrightarrow> len = cl_buffer_size s) \<and>
     bytes_sent (cl_ctx s') = bytes_sent (cl_ctx s) + word_of_int (sum_list (sent_bytes es)) \<and>
     messages_sent (cl_ctx s') = messages_sent (cl_ctx s) + word_of_nat (length (sent_bytes es))"
proof (induction es arbitrary: s)
  case Nil
  then show ?case by simp
next
  case (Cons e es)
  from Cons.prems obtain s1 where s1: "cl_client_thread s e = Some s1"
    and r: "run cl_client_thread s1 es = Some s'"
    by (auto split: option.splits)
  note ih = Cons.IH [OF r]
  show ?case
  proof (cases "is_send e")
    case True
    then obtain len ret where e: "e = Send len ret" using is_send_cases by blast
    from cl_client_thread_send [OF s1 [unfolded e]] ih e show ?thesis
      by (auto simp: algebra_simps)
  next
    case False
    from cl_client_thread_other [OF s1 False] ih False show ?thesis
      by (auto simp: sent_bytes_other not_send_neq)
  qed
qed

lemma cl_run_no_double_send:
  "run cl_client_thread s es = Some s' \<Longrightarrow> \<not> send_after_send es"
proof (induction es arbitrary: s rule: send_after_send.induct)
  case (1 e e' es)
  from "1.prems" obtain s1 where s1: "cl_client_thread s e = Some s1"
    and r: "run cl_client_thread s1 (e' # es) = Some s'"
    by (auto split: option.splits)
  from r obtain s2 where s2: "cl_client_thread s1 e' = Some s2"
    by (auto split: option.splits)
  have "\<not> (is_send e \<and> is_send e')"
  proof
    assume a: "is_send e \<and> is_send e'"
    then obtain len ret len' ret' where e: "e = Send len ret" and e': "e' = Send len' ret'"
      using is_send_cases by blast
    from cl_client_thread_send [OF s1 [unfolded e]] have "cl_pc s1 \<noteq> CSend" by simp
    from cl_client_thread_not_at_send [OF this] s2 e' show False by simp
  qed
  with "1.IH" [OF r] show ?case by simp
qed simp_all

text \<open>What follows a \<open>send\<close> call of the client, and what precedes it.\<close>

lemma cl_size: "cl_client_thread s e = Some s' \<Longrightarrow> cl_buffer_size s' = cl_buffer_size s"
  by (cases "cl_pc s"; cases e) (auto simp: cl_client_thread_def cl_enter_recv_def split: if_splits)

lemma cl_send_post:
  assumes "cl_client_thread s (Send len ret) = Some s'"
  shows "cl_pc s = CSend \<and> total_recv s' = (if ret > 0 then 0 else total_recv s) \<and>
     cl_pc s' = (if ret \<le> 0 then CFinish
                 else if 0 < sint (cl_buffer_size s) then CRecvLoop else CSendEnd)"
  using assms
  by (cases "cl_pc s") (auto simp: cl_client_thread_def cl_enter_recv_def split: if_splits)

lemma cl_at_finish:
  assumes "cl_pc s = CFinish" and "cl_client_thread s e = Some s'"
  shows "is_time_sec e \<and> cl_pc s' = CClosed"
  using assms by (cases e) (auto simp: cl_client_thread_def)

lemma cl_at_recv_loop:
  assumes "cl_pc s = CRecvLoop" and "cl_client_thread s e = Some s'"
  shows "(e = Running True \<and> cl_pc s' = CRecv \<or> e = Running False \<and> cl_pc s' = CSendEnd) \<and>
     total_recv s' = total_recv s"
  using assms by (cases e) (auto simp: cl_client_thread_def split: if_splits)

lemma cl_at_recv:
  assumes "cl_pc s = CRecv" and "cl_client_thread s e = Some s'"
  shows "recv_of (cl_buffer_size s - word_of_int (total_recv s)) e"
  using assms by (cases e) (auto simp: cl_client_thread_def split: if_splits)

lemma cl_at_send_end:
  assumes "cl_pc s = CSendEnd" and "cl_client_thread s e = Some s'"
  shows "is_time_us e"
  using assms by (cases e) (auto simp: cl_client_thread_def)

lemma cl_after_send_run:
  assumes st: "cl_client_thread s (Send len ret) = Some s1"
    and r: "run cl_client_thread s1 es = Some s'"
  shows "cl_after_send (cl_buffer_size s) ret es"
proof (cases es)
  case Nil
  then show ?thesis by (simp add: cl_after_send_def)
next
  case (Cons e es1)
  with r obtain s2 where s2: "cl_client_thread s1 e = Some s2"
    and r2: "run cl_client_thread s2 es1 = Some s'"
    by (auto split: option.splits)
  note post = cl_send_post [OF st]
  have sz1: "cl_buffer_size s1 = cl_buffer_size s" by (rule cl_size [OF st])
  show ?thesis
  proof (cases "ret \<le> 0")
    case True
    with post have "cl_pc s1 = CFinish" by simp
    from cl_at_finish [OF this s2] have ts: "is_time_sec e" and c: "cl_pc s2 = CClosed" by simp_all
    have "es1 = []"
    proof (cases es1)
      case (Cons e2 es2)
      with r2 cl_closed_stuck [OF c, of e2] show ?thesis by simp
    qed simp
    with True ts Cons show ?thesis by (simp add: cl_after_send_def)
  next
    case False
    show ?thesis
    proof (cases "0 < sint (cl_buffer_size s)")
      case neg: False
      with False post have "cl_pc s1 = CSendEnd" by simp
      from cl_at_send_end [OF this s2] False neg Cons show ?thesis
        by (simp add: cl_after_send_def)
    next
      case pos: True
      with False post have p1: "cl_pc s1 = CRecvLoop" and tr: "total_recv s1 = 0" by simp_all
      note a = cl_at_recv_loop [OF p1 s2]
      show ?thesis
      proof (cases es1)
        case Nil
        with a False pos Cons show ?thesis by (auto simp: cl_after_send_def)
      next
        case (Cons e2 es2)
        with r2 obtain s3 where s3: "cl_client_thread s2 e2 = Some s3"
          by (auto split: option.splits)
        have sz2: "cl_buffer_size s2 = cl_buffer_size s" using cl_size [OF s2] sz1 by simp
        from a tr have tr2: "total_recv s2 = 0" by simp
        from a show ?thesis
        proof (elim conjE disjE)
          assume e: "e = Running True" and p2: "cl_pc s2 = CRecv"
          from cl_at_recv [OF p2 s3] sz2 tr2 have "recv_of (cl_buffer_size s) e2" by simp
          with e False pos \<open>es = e # es1\<close> Cons show ?thesis by (simp add: cl_after_send_def)
        next
          assume e: "e = Running False" and p2: "cl_pc s2 = CSendEnd"
          from cl_at_send_end [OF p2 s3] have "is_time_us e2" .
          with e False pos \<open>es = e # es1\<close> Cons show ?thesis by (simp add: cl_after_send_def)
        qed
      qed
    qed
  qed
qed

lemma cl_submits_other: "\<not> is_send e \<Longrightarrow> cl_submits B (e # es) = cl_submits B es"
  by (cases e) simp_all

lemma cl_run_submits:
  "run cl_client_thread s es = Some s' \<Longrightarrow> cl_submits (cl_buffer_size s) es"
proof (induction es arbitrary: s)
  case Nil
  then show ?case by simp
next
  case (Cons e es)
  from Cons.prems obtain s1 where s1: "cl_client_thread s e = Some s1"
    and r: "run cl_client_thread s1 es = Some s'"
    by (auto split: option.splits)
  from Cons.IH [OF r] cl_size [OF s1] have ih: "cl_submits (cl_buffer_size s) es" by simp
  show ?case
  proof (cases "is_send e")
    case True
    then obtain len ret where e: "e = Send len ret" using is_send_cases by blast
    from cl_client_thread_send [OF s1 [unfolded e]] have "len = cl_buffer_size s" by simp
    with cl_after_send_run [OF s1 [unfolded e] r] ih e show ?thesis by simp
  next
    case False
    with ih show ?thesis by (simp add: cl_submits_other)
  qed
qed

lemma cl_hist_step:
  assumes "cl_hist s p2 p1" and "cl_client_thread s e = Some s'"
  shows "cl_hist s' p1 (Some e) \<and> (if is_send e then opened p2 p1 else True)"
  using assms
  by (cases "cl_pc s"; cases e)
    (auto simp: cl_hist_def opened_def cl_client_thread_def cl_enter_recv_def
      split: if_splits option.splits)

lemma cl_run_opens:
  "cl_hist s p2 p1 \<Longrightarrow> run cl_client_thread s es = Some s' \<Longrightarrow> opens_from p2 p1 es"
proof (induction es arbitrary: s p2 p1)
  case Nil
  then show ?case by simp
next
  case (Cons e es)
  from Cons.prems(2) obtain s1 where s1: "cl_client_thread s e = Some s1"
    and r: "run cl_client_thread s1 es = Some s'"
    by (auto split: option.splits)
  from cl_hist_step [OF Cons.prems(1) s1]
  have h: "cl_hist s1 p1 (Some e)" and o: "if is_send e then opened p2 p1 else True" by simp_all
  from Cons.IH [OF h r] o show ?case by simp
qed

lemma cl_start_hist: "cl_hist (cl_client_thread_start h c) None None"
  using cl_client_thread_start_cases [of h c] by (auto simp: cl_hist_def)

lemma cl_start_closed_run:
  assumes "cl_pc (cl_client_thread_start h c) = CClosed"
    and "run cl_client_thread (cl_client_thread_start h c) es = Some s"
  shows "es = []"
  using assms by (cases es) (auto simp: cl_closed_stuck)

section \<open>Properties of the two-copy server\<close>

lemma sv_handle_client_start_cases:
  "sv_pc (sv_handle_client_start h c) = SClosed \<or>
   (sv_pc (sv_handle_client_start h c) = SLoop \<and>
    sv_buffer_size (sv_handle_client_start h c) = per_field_size (msg_size c) * word_of_nat NUM_STRING_FIELDS)"
  by (simp add: sv_handle_client_start_def serialize_message_cases split: option.splits)

lemma sv_handle_client_start_ctx: "sv_ctx (sv_handle_client_start h c) = c"
  by (simp add: sv_handle_client_start_def serialize_message_cases split: option.splits)

lemma sv_handle_client_start_all_ok:
  "sv_handle_client_start all_ok c =
     \<lparr>sv_pc = SLoop, sv_ctx = c,
      sv_buffer_size = per_field_size (msg_size c) * word_of_nat NUM_STRING_FIELDS\<rparr>"
  by (simp add: sv_handle_client_start_def serialize_message_cases allocate_message_total all_ok_def heap_after_def)

lemma sv_closed_stuck: "sv_pc s = SClosed \<Longrightarrow> sv_handle_client s e = None"
  by (simp add: sv_handle_client_def split: event.splits)

lemma sv_handle_client_size: "sv_handle_client s e = Some s' \<Longrightarrow> sv_buffer_size s' = sv_buffer_size s"
  by (cases "sv_pc s"; cases e) (auto simp: sv_handle_client_def split: if_splits)

lemma sv_handle_client_recv:
  assumes "sv_handle_client s (Recv len ret) = Some s'"
  shows "len = sv_buffer_size s \<and> (if ret > 0 then sv_pc s' = SSend else sv_pc s' = SClosed) \<and>
     bytes_received (sv_ctx s') = bytes_received (sv_ctx s) + (if ret > 0 then word_of_int ret else 0)"
  using assms by (cases "sv_pc s") (auto simp: sv_handle_client_def split: if_splits)

lemma sv_handle_client_at_send:
  assumes "sv_pc s = SSend" and "sv_handle_client s e = Some s'"
  shows "sends_whole (sv_buffer_size s) e"
  using assms by (cases e) (auto simp: sv_handle_client_def split: if_splits)

lemma sv_handle_client_send:
  assumes "sv_handle_client s (Send len ret) = Some s'"
  shows "len = sv_buffer_size s \<and>
     bytes_sent (sv_ctx s') = bytes_sent (sv_ctx s) + (if ret > 0 then word_of_int ret else 0)"
  using assms by (cases "sv_pc s") (auto simp: sv_handle_client_def split: if_splits)

lemma sv_handle_client_keeps_sent:
  assumes "sv_handle_client s e = Some s'" and "\<not> is_send e"
  shows "bytes_sent (sv_ctx s') = bytes_sent (sv_ctx s)"
  using assms by (cases "sv_pc s"; cases e) (auto simp: sv_handle_client_def split: if_splits)

lemma sv_handle_client_keeps_received:
  assumes "sv_handle_client s e = Some s'" and "\<not> is_recv e"
  shows "bytes_received (sv_ctx s') = bytes_received (sv_ctx s)"
  using assms by (cases "sv_pc s"; cases e) (auto simp: sv_handle_client_def split: if_splits)

lemma is_recv_cases: "is_recv e \<Longrightarrow> \<exists>len ret. e = Recv len ret"
  by (cases e) simp_all

lemma received_bytes_other: "\<not> is_recv e \<Longrightarrow> received_bytes (e # es) = received_bytes es"
  by (cases e) simp_all

lemma not_recv_neq: "\<not> is_recv e \<Longrightarrow> e \<noteq> Recv len ret"
  by (cases e) simp_all

lemma sv_run_lengths:
  "run sv_handle_client s es = Some s' \<Longrightarrow>
     (\<forall>len ret. Send len ret \<in> set es \<longrightarrow> len = sv_buffer_size s) \<and>
     (\<forall>len ret. Recv len ret \<in> set es \<longrightarrow> len = sv_buffer_size s)"
proof (induction es arbitrary: s)
  case Nil
  then show ?case by simp
next
  case (Cons e es)
  from Cons.prems obtain s1 where s1: "sv_handle_client s e = Some s1"
    and r: "run sv_handle_client s1 es = Some s'"
    by (auto split: option.splits)
  from Cons.IH [OF r] sv_handle_client_size [OF s1] sv_handle_client_send sv_handle_client_recv s1
  show ?case by auto
qed

lemma sv_run_sent:
  "run sv_handle_client s es = Some s' \<Longrightarrow>
     bytes_sent (sv_ctx s') = bytes_sent (sv_ctx s) + word_of_int (sum_list (sent_bytes es))"
proof (induction es arbitrary: s)
  case Nil
  then show ?case by simp
next
  case (Cons e es)
  from Cons.prems obtain s1 where s1: "sv_handle_client s e = Some s1"
    and r: "run sv_handle_client s1 es = Some s'"
    by (auto split: option.splits)
  note ih = Cons.IH [OF r]
  show ?case
  proof (cases "is_send e")
    case True
    then obtain len ret where e: "e = Send len ret" using is_send_cases by blast
    from sv_handle_client_send [OF s1 [unfolded e]] ih e show ?thesis
      by (auto simp: algebra_simps)
  next
    case False
    from sv_handle_client_keeps_sent [OF s1 False] ih False show ?thesis
      by (simp add: sent_bytes_other)
  qed
qed

lemma sv_run_received:
  "run sv_handle_client s es = Some s' \<Longrightarrow>
     bytes_received (sv_ctx s') =
       bytes_received (sv_ctx s) + word_of_int (sum_list (received_bytes es))"
proof (induction es arbitrary: s)
  case Nil
  then show ?case by simp
next
  case (Cons e es)
  from Cons.prems obtain s1 where s1: "sv_handle_client s e = Some s1"
    and r: "run sv_handle_client s1 es = Some s'"
    by (auto split: option.splits)
  note ih = Cons.IH [OF r]
  show ?case
  proof (cases "is_recv e")
    case True
    then obtain len ret where e: "e = Recv len ret" using is_recv_cases by blast
    from sv_handle_client_recv [OF s1 [unfolded e]] ih e show ?thesis
      by (auto simp: algebra_simps)
  next
    case False
    from sv_handle_client_keeps_received [OF s1 False] ih False show ?thesis
      by (simp add: received_bytes_other)
  qed
qed

lemma echoes_other:
  "\<not> is_recv e \<Longrightarrow> echoes_whole_buffer B (e # es) = echoes_whole_buffer B es"
  by (cases e; cases es) simp_all

lemma sv_run_echoes:
  "run sv_handle_client s es = Some s' \<Longrightarrow> echoes_whole_buffer (sv_buffer_size s) es"
proof (induction es arbitrary: s)
  case Nil
  then show ?case by simp
next
  case (Cons e es)
  from Cons.prems obtain s1 where s1: "sv_handle_client s e = Some s1"
    and r: "run sv_handle_client s1 es = Some s'"
    by (auto split: option.splits)
  have sz: "sv_buffer_size s1 = sv_buffer_size s" by (rule sv_handle_client_size [OF s1])
  from Cons.IH [OF r] sz have ih: "echoes_whole_buffer (sv_buffer_size s) es" by simp
  show ?case
  proof (cases "is_recv e")
    case False
    with ih show ?thesis by (simp add: echoes_other)
  next
    case True
    then obtain len ret where e: "e = Recv len ret" using is_recv_cases by blast
    show ?thesis
    proof (cases es)
      case Nil
      with e show ?thesis by simp
    next
      case (Cons e' es')
      with r obtain s2 where s2: "sv_handle_client s1 e' = Some s2"
        by (auto split: option.splits)
      have "ret > 0 \<Longrightarrow> sends_whole (sv_buffer_size s) e'"
      proof -
        assume "ret > 0"
        with sv_handle_client_recv [OF s1 [unfolded e]] have "sv_pc s1 = SSend" by simp
        from sv_handle_client_at_send [OF this s2] sz show ?thesis by simp
      qed
      with ih e Cons show ?thesis by auto
    qed
  qed
qed

text \<open>
  Claim C6, as stated, fails. The server's \<open>recv\<close> obtains 100 bytes of a 1024-byte
  request; the response it sends is the whole 1024-byte buffer. A trace in which it
  answers with 100 bytes is not a run of the program.
\<close>

theorem partial_request_full_response:
  "run sv_handle_client (sv_handle_client_start all_ok (new_context 1024 0))
     [Running True, Recv 1024 100, Send 1024 1024] =
   Some \<lparr>sv_pc = SLoop,
         sv_ctx = \<lparr>msg_size = 1024, duration = 0, bytes_sent = 1024, bytes_received = 100,
                   messages_sent = 1, messages_received = 1, total_latency_us = 0\<rparr>,
         sv_buffer_size = 1024\<rparr> \<and>
   run sv_handle_client (sv_handle_client_start all_ok (new_context 1024 0))
     [Running True, Recv 1024 100, Send 100 100] = None \<and>
   (100 :: int) \<noteq> 1024"
  by (simp add: sv_handle_client_start_all_ok new_context_def total_1024 sv_handle_client_def)

text \<open>
  Claim C6, amended. In every run of the two-copy server, every \<open>recv\<close> and every
  \<open>send\<close> is called with the length \<open>B = per_field_size * 8\<close>, and every \<open>recv\<close> that
  returns \<open>R > 0\<close> is directly followed by one \<open>send\<close> of \<open>B\<close> bytes, whatever \<open>R\<close> is:
  the response has the length of a whole message, which is the length of what was
  received only when \<open>R = B\<close>. \<open>bytes_received\<close> grows by the sum of the positive
  \<open>recv\<close> results and \<open>bytes_sent\<close> by the sum of the positive \<open>send\<close> results.
\<close>

theorem echo_response_length:
  "run sv_handle_client (sv_handle_client_start h c) es = Some s \<Longrightarrow>
     (\<forall>len ret. Send len ret \<in> set es \<longrightarrow>
        len = per_field_size (msg_size c) * word_of_nat NUM_STRING_FIELDS) \<and>
     (\<forall>len ret. Recv len ret \<in> set es \<longrightarrow>
        len = per_field_size (msg_size c) * word_of_nat NUM_STRING_FIELDS) \<and>
     echoes_whole_buffer (per_field_size (msg_size c) * word_of_nat NUM_STRING_FIELDS) es \<and>
     bytes_received (sv_ctx s) = bytes_received c + word_of_int (sum_list (received_bytes es)) \<and>
     bytes_sent (sv_ctx s) = bytes_sent c + word_of_int (sum_list (sent_bytes es))"
proof -
  assume r: "run sv_handle_client (sv_handle_client_start h c) es = Some s"
  let ?B = "per_field_size (msg_size c) * word_of_nat NUM_STRING_FIELDS"
  have acc: "bytes_received (sv_ctx s) = bytes_received c + word_of_int (sum_list (received_bytes es))"
    "bytes_sent (sv_ctx s) = bytes_sent c + word_of_int (sum_list (sent_bytes es))"
    using sv_run_received [OF r] sv_run_sent [OF r] by (simp_all add: sv_handle_client_start_ctx)
  show ?thesis
  proof (cases "sv_pc (sv_handle_client_start h c) = SClosed")
    case True
    have "es = []"
    proof (cases es)
      case (Cons e es')
      with r sv_closed_stuck [OF True, of e] show ?thesis by simp
    qed simp
    with acc show ?thesis by simp
  next
    case False
    with sv_handle_client_start_cases [of h c] have b: "sv_buffer_size (sv_handle_client_start h c) = ?B" by simp
    from sv_run_lengths [OF r] sv_run_echoes [OF r] b acc show ?thesis by simp
  qed
qed

text \<open>Claim C6, amended, on a run where a request arrives in two parts.\<close>

theorem echo_response_length_witness:
  "run sv_handle_client (sv_handle_client_start all_ok (new_context 1024 0))
     [Running True, Recv 1024 100, Send 1024 1024, Running True, Recv 1024 924, Send 1024 1024] =
   Some \<lparr>sv_pc = SLoop,
         sv_ctx = \<lparr>msg_size = 1024, duration = 0, bytes_sent = 2048, bytes_received = 1024,
                   messages_sent = 2, messages_received = 2, total_latency_us = 0\<rparr>,
         sv_buffer_size = 1024\<rparr> \<and>
   echoes_whole_buffer (per_field_size 1024 * word_of_nat NUM_STRING_FIELDS)
     [Running True, Recv 1024 100, Send 1024 1024, Running True, Recv 1024 924, Send 1024 1024] \<and>
   received_bytes
     [Running True, Recv 1024 100, Send 1024 1024, Running True, Recv 1024 924, Send 1024 1024] =
     [100, 924]"
proof -
  have r: "run sv_handle_client (sv_handle_client_start all_ok (new_context 1024 0))
     [Running True, Recv 1024 100, Send 1024 1024, Running True, Recv 1024 924, Send 1024 1024] =
   Some \<lparr>sv_pc = SLoop,
         sv_ctx = \<lparr>msg_size = 1024, duration = 0, bytes_sent = 2048, bytes_received = 1024,
                   messages_sent = 2, messages_received = 2, total_latency_us = 0\<rparr>,
         sv_buffer_size = 1024\<rparr>"
    by (simp add: sv_handle_client_start_all_ok new_context_def total_1024 sv_handle_client_def)
  from echo_response_length [OF r] have
    "echoes_whole_buffer (per_field_size (msg_size (new_context 1024 0)) * word_of_nat NUM_STRING_FIELDS)
      [Running True, Recv 1024 100, Send 1024 1024, Running True, Recv 1024 924, Send 1024 1024]"
    by blast
  then have "echoes_whole_buffer (per_field_size 1024 * word_of_nat NUM_STRING_FIELDS)
      [Running True, Recv 1024 100, Send 1024 1024, Running True, Recv 1024 924, Send 1024 1024]"
    by (simp only: new_context_def ClientContext.simps)
  with r show ?thesis by simp
qed

text \<open>What follows a \<open>send\<close> call of the server, and what precedes it.\<close>

lemma sv_send_post:
  assumes "sv_handle_client s (Send len ret) = Some s'"
  shows "sv_pc s = SSend \<and> sv_pc s' = (if ret \<le> 0 then SClosed else SLoop) \<and>
     messages_sent (sv_ctx s') = messages_sent (sv_ctx s) + (if ret > 0 then 1 else 0)"
  using assms by (cases "sv_pc s") (auto simp: sv_handle_client_def split: if_splits)

lemma sv_keeps_messages_sent:
  assumes "sv_handle_client s e = Some s'" and "\<not> is_send e"
  shows "messages_sent (sv_ctx s') = messages_sent (sv_ctx s)"
  using assms by (cases "sv_pc s"; cases e) (auto simp: sv_handle_client_def split: if_splits)

lemma sv_at_loop:
  assumes "sv_pc s = SLoop" and "sv_handle_client s e = Some s'"
  shows "e = Running True \<and> sv_pc s' = SRecv \<or> e = Running False \<and> sv_pc s' = SClosed"
  using assms by (cases e) (auto simp: sv_handle_client_def split: if_splits)

lemma sv_at_recv:
  assumes "sv_pc s = SRecv" and "sv_handle_client s e = Some s'"
  shows "recv_of (sv_buffer_size s) e"
  using assms by (cases e) (auto simp: sv_handle_client_def split: if_splits)

lemma sv_closed_run: "sv_pc s = SClosed \<Longrightarrow> run sv_handle_client s es = Some s' \<Longrightarrow> es = []"
  by (cases es) (auto simp: sv_closed_stuck)

lemma sv_after_send_run:
  assumes st: "sv_handle_client s (Send len ret) = Some s1"
    and r: "run sv_handle_client s1 es = Some s'"
  shows "sv_after_send (sv_buffer_size s) ret es"
proof (cases "ret \<le> 0")
  case True
  with sv_send_post [OF st] have "sv_pc s1 = SClosed" by simp
  from sv_closed_run [OF this r] True show ?thesis by (simp add: sv_after_send_def)
next
  case False
  with sv_send_post [OF st] have p1: "sv_pc s1 = SLoop" by simp
  have sz1: "sv_buffer_size s1 = sv_buffer_size s" by (rule sv_handle_client_size [OF st])
  show ?thesis
  proof (cases es)
    case Nil
    with False show ?thesis by (simp add: sv_after_send_def)
  next
    case (Cons e es1)
    with r obtain s2 where s2: "sv_handle_client s1 e = Some s2"
      and r2: "run sv_handle_client s2 es1 = Some s'"
      by (auto split: option.splits)
    note a = sv_at_loop [OF p1 s2]
    have sz2: "sv_buffer_size s2 = sv_buffer_size s" using sv_handle_client_size [OF s2] sz1 by simp
    show ?thesis
    proof (cases es1)
      case Nil
      with a False Cons show ?thesis by (auto simp: sv_after_send_def)
    next
      case es1: (Cons e2 es2)
      with r2 obtain s3 where s3: "sv_handle_client s2 e2 = Some s3"
        by (auto split: option.splits)
      from a show ?thesis
      proof (elim conjE disjE)
        assume e: "e = Running True" and p2: "sv_pc s2 = SRecv"
        from sv_at_recv [OF p2 s3] sz2 have "recv_of (sv_buffer_size s) e2" by simp
        with e False Cons es1 show ?thesis by (simp add: sv_after_send_def)
      next
        assume e: "e = Running False" and p2: "sv_pc s2 = SClosed"
        from sv_closed_run [OF p2 r2] es1 show ?thesis by simp
      qed
    qed
  qed
qed

lemma sv_submits_other: "\<not> is_send e \<Longrightarrow> sv_submits B (e # es) = sv_submits B es"
  by (cases e) simp_all

lemma sv_run_submits:
  "run sv_handle_client s es = Some s' \<Longrightarrow> sv_submits (sv_buffer_size s) es"
proof (induction es arbitrary: s)
  case Nil
  then show ?case by simp
next
  case (Cons e es)
  from Cons.prems obtain s1 where s1: "sv_handle_client s e = Some s1"
    and r: "run sv_handle_client s1 es = Some s'"
    by (auto split: option.splits)
  from Cons.IH [OF r] sv_handle_client_size [OF s1]
  have ih: "sv_submits (sv_buffer_size s) es" by simp
  show ?case
  proof (cases "is_send e")
    case True
    then obtain len ret where e: "e = Send len ret" using is_send_cases by blast
    from sv_handle_client_send [OF s1 [unfolded e]] have "len = sv_buffer_size s" by simp
    with sv_after_send_run [OF s1 [unfolded e] r] ih e show ?thesis by simp
  next
    case False
    with ih show ?thesis by (simp add: sv_submits_other)
  qed
qed

lemma sv_hist_step:
  assumes "sv_hist s p" and "sv_handle_client s e = Some s'"
  shows "sv_hist s' (Some e) \<and> (if is_send e then answered (sv_buffer_size s) p else True)"
  using assms
  by (cases "sv_pc s"; cases e)
    (auto simp: sv_hist_def answered_def sv_handle_client_def split: if_splits option.splits)

lemma sv_run_answers:
  "sv_hist s p \<Longrightarrow> run sv_handle_client s es = Some s' \<Longrightarrow>
   answers_from (sv_buffer_size s) p es"
proof (induction es arbitrary: s p)
  case Nil
  then show ?case by simp
next
  case (Cons e es)
  from Cons.prems(2) obtain s1 where s1: "sv_handle_client s e = Some s1"
    and r: "run sv_handle_client s1 es = Some s'"
    by (auto split: option.splits)
  from sv_hist_step [OF Cons.prems(1) s1]
  have h: "sv_hist s1 (Some e)"
    and o: "if is_send e then answered (sv_buffer_size s) p else True" by simp_all
  from Cons.IH [OF h r] sv_handle_client_size [OF s1] o show ?case by simp
qed

lemma sv_start_hist: "sv_hist (sv_handle_client_start h c) None"
  using sv_handle_client_start_cases [of h c] by (auto simp: sv_hist_def)

lemma sv_run_messages_sent:
  "run sv_handle_client s es = Some s' \<Longrightarrow>
     messages_sent (sv_ctx s') = messages_sent (sv_ctx s) + word_of_nat (length (sent_bytes es))"
proof (induction es arbitrary: s)
  case Nil
  then show ?case by simp
next
  case (Cons e es)
  from Cons.prems obtain s1 where s1: "sv_handle_client s e = Some s1"
    and r: "run sv_handle_client s1 es = Some s'"
    by (auto split: option.splits)
  note ih = Cons.IH [OF r]
  show ?case
  proof (cases "is_send e")
    case True
    then obtain len ret where e: "e = Send len ret" using is_send_cases by blast
    from sv_send_post [OF s1 [unfolded e]] ih e show ?thesis
      by (auto simp: algebra_simps)
  next
    case False
    from sv_keeps_messages_sent [OF s1 False] ih False show ?thesis
      by (simp add: sent_bytes_other)
  qed
qed

lemma sv_not_at_send: "sv_pc s \<noteq> SSend \<Longrightarrow> sv_handle_client s (Send len ret) = None"
  by (cases "sv_pc s") (auto simp: sv_handle_client_def)

lemma sv_run_no_double_send:
  "run sv_handle_client s es = Some s' \<Longrightarrow> \<not> send_after_send es"
proof (induction es arbitrary: s rule: send_after_send.induct)
  case (1 e e' es)
  from "1.prems" obtain s1 where s1: "sv_handle_client s e = Some s1"
    and r: "run sv_handle_client s1 (e' # es) = Some s'"
    by (auto split: option.splits)
  from r obtain s2 where s2: "sv_handle_client s1 e' = Some s2"
    by (auto split: option.splits)
  have "\<not> (is_send e \<and> is_send e')"
  proof
    assume a: "is_send e \<and> is_send e'"
    then obtain len ret len' ret' where e: "e = Send len ret" and e': "e' = Send len' ret'"
      using is_send_cases by blast
    from sv_send_post [OF s1 [unfolded e]] have "sv_pc s1 \<noteq> SSend" by (simp split: if_splits)
    from sv_not_at_send [OF this] s2 e' show False by simp
  qed
  with "1.IH" [OF r] show ?case by simp
qed simp_all

section \<open>Properties of the full-copy submit\<close>

text \<open>
  Claim C5, as stated, fails. The client offers its 1024-byte buffer to \<open>send\<close>, which
  accepts 512 bytes: the session counts one message sent, accounts 512 bytes and goes
  on to the receive loop. It does not call \<open>send\<close> again for the rest: a trace with a
  second \<open>send\<close> at that point is not a run of the program.
\<close>

theorem short_write_ends_submit:
  "run cl_client_thread (cl_client_thread_start all_ok (new_context 1024 10))
     [TimeSec 0, Running True, TimeSec 1, TimeUs 0, Send 1024 512] =
   Some \<lparr>cl_pc = CRecvLoop,
         cl_ctx = \<lparr>msg_size = 1024, duration = 10, bytes_sent = 512, bytes_received = 0,
                   messages_sent = 1, messages_received = 0, total_latency_us = 0\<rparr>,
         cl_buffer_size = 1024, end_time = 10, send_start = 0, total_recv = 0\<rparr> \<and>
   run cl_client_thread (cl_client_thread_start all_ok (new_context 1024 10))
     [TimeSec 0, Running True, TimeSec 1, TimeUs 0, Send 1024 512, Send 1024 512] = None \<and>
   (512 :: ull) \<noteq> 1024"
  by (simp add: cl_client_thread_start_all_ok new_context_def total_1024 cl_client_thread_def cl_enter_recv_def)

text \<open>
  Claim C5, amended. In every run of the full-copy client and in every run of the
  full-copy server, a submit is one \<open>send\<close> call that offers the whole buffer of
  \<open>B = per_field_size * 8\<close> bytes, and it is not repeated or completed after a short
  write. In the client, each \<open>send\<close> call opens a new iteration of the loop (it directly
  follows the loop test's reading of the clock and the reading stored in
  \<open>send_start\<close>), and after a call that returned \<open>n > 0\<close>, however small, the session
  reads the flag and calls \<open>recv\<close> for the whole echo of \<open>B\<close> bytes, or closes the
  exchange. In the server, each \<open>send\<close> call directly follows a \<open>recv\<close> of length \<open>B\<close>
  that returned a positive number of bytes, and after a call that returned \<open>n > 0\<close>
  the session reads the flag and calls \<open>recv\<close> for the next request. In both, no
  \<open>send\<close> call directly follows another, a call that returns no positive value ends the
  session, and every call that returns \<open>n > 0\<close> counts one message and accounts exactly
  \<open>n\<close> bytes: \<open>bytes_sent\<close> grows by the sum of the positive return values and
  \<open>messages_sent\<close> by their number (both 64-bit counters).
\<close>

theorem full_copy_submit:
  "(run cl_client_thread (cl_client_thread_start h c) es = Some s \<longrightarrow>
      (\<forall>len ret. Send len ret \<in> set es \<longrightarrow>
         len = per_field_size (msg_size c) * word_of_nat NUM_STRING_FIELDS) \<and>
      \<not> send_after_send es \<and>
      sends_open_iterations es \<and>
      cl_submits (per_field_size (msg_size c) * word_of_nat NUM_STRING_FIELDS) es \<and>
      bytes_sent (cl_ctx s) = bytes_sent c + word_of_int (sum_list (sent_bytes es)) \<and>
      messages_sent (cl_ctx s) = messages_sent c + word_of_nat (length (sent_bytes es))) \<and>
   (run sv_handle_client (sv_handle_client_start h' c') es' = Some s' \<longrightarrow>
      (\<forall>len ret. Send len ret \<in> set es' \<longrightarrow>
         len = per_field_size (msg_size c') * word_of_nat NUM_STRING_FIELDS) \<and>
      \<not> send_after_send es' \<and>
      sends_answer_receives (per_field_size (msg_size c') * word_of_nat NUM_STRING_FIELDS) es' \<and>
      sv_submits (per_field_size (msg_size c') * word_of_nat NUM_STRING_FIELDS) es' \<and>
      bytes_sent (sv_ctx s') = bytes_sent c' + word_of_int (sum_list (sent_bytes es')) \<and>
      messages_sent (sv_ctx s') = messages_sent c' + word_of_nat (length (sent_bytes es')))"
proof (intro conjI impI)
  assume r: "run cl_client_thread (cl_client_thread_start h c) es = Some s"
  let ?B = "per_field_size (msg_size c) * word_of_nat NUM_STRING_FIELDS"
  note a = cl_run_accounting [OF r]
  show "\<not> send_after_send es" by (rule cl_run_no_double_send [OF r])
  show "sends_open_iterations es"
    unfolding sends_open_iterations_def by (rule cl_run_opens [OF cl_start_hist r])
  show "bytes_sent (cl_ctx s) = bytes_sent c + word_of_int (sum_list (sent_bytes es))"
    using a by (simp add: cl_client_thread_start_ctx)
  show "messages_sent (cl_ctx s) = messages_sent c + word_of_nat (length (sent_bytes es))"
    using a by (simp add: cl_client_thread_start_ctx)
  have "(\<forall>len ret. Send len ret \<in> set es \<longrightarrow> len = ?B) \<and> cl_submits ?B es"
  proof (cases "cl_pc (cl_client_thread_start h c) = CClosed")
    case True
    from cl_start_closed_run [OF True r] show ?thesis by simp
  next
    case False
    with cl_client_thread_start_cases [of h c]
    have b: "cl_buffer_size (cl_client_thread_start h c) = ?B" by simp
    from a cl_run_submits [OF r] b show ?thesis by simp
  qed
  then show "\<forall>len ret. Send len ret \<in> set es \<longrightarrow> len = ?B" and "cl_submits ?B es"
    by simp_all
next
  assume r: "run sv_handle_client (sv_handle_client_start h' c') es' = Some s'"
  let ?B = "per_field_size (msg_size c') * word_of_nat NUM_STRING_FIELDS"
  show "bytes_sent (sv_ctx s') = bytes_sent c' + word_of_int (sum_list (sent_bytes es'))"
    using sv_run_sent [OF r] by (simp add: sv_handle_client_start_ctx)
  show "messages_sent (sv_ctx s') = messages_sent c' + word_of_nat (length (sent_bytes es'))"
    using sv_run_messages_sent [OF r] by (simp add: sv_handle_client_start_ctx)
  have "(\<forall>len ret. Send len ret \<in> set es' \<longrightarrow> len = ?B) \<and> \<not> send_after_send es' \<and>
      sends_answer_receives ?B es' \<and> sv_submits ?B es'"
  proof (cases "sv_pc (sv_handle_client_start h' c') = SClosed")
    case True
    from sv_closed_run [OF True r] show ?thesis
      by (simp add: sends_answer_receives_def)
  next
    case False
    with sv_handle_client_start_cases [of h' c']
    have b: "sv_buffer_size (sv_handle_client_start h' c') = ?B" by simp
    have n: "\<not> send_after_send es'" by (rule sv_run_no_double_send [OF r])
    from sv_run_lengths [OF r] sv_run_submits [OF r] sv_run_answers [OF sv_start_hist r] b n
    show ?thesis by (simp add: sends_answer_receives_def)
  qed
  then show "\<forall>len ret. Send len ret \<in> set es' \<longrightarrow> len = ?B" and "\<not> send_after_send es'"
    and "sends_answer_receives ?B es'" and "sv_submits ?B es'"
    by simp_all
qed

text \<open>
  Claim C5, amended, on a run of the client and a run of the server, each with a short
  write of 512 of 1024 bytes followed by a whole exchange.
\<close>

theorem full_copy_submit_witness:
  "run cl_client_thread (cl_client_thread_start all_ok (new_context 1024 10))
     [TimeSec 0, Running True, TimeSec 1, TimeUs 0, Send 1024 512, Running True,
      Recv 1024 1024, TimeUs 90, Running True, TimeSec 2, TimeUs 100, Send 1024 1024] =
   Some \<lparr>cl_pc = CRecvLoop,
         cl_ctx = \<lparr>msg_size = 1024, duration = 10, bytes_sent = 1536, bytes_received = 1024,
                   messages_sent = 2, messages_received = 1, total_latency_us = 90\<rparr>,
         cl_buffer_size = 1024, end_time = 10, send_start = 100, total_recv = 0\<rparr> \<and>
   cl_submits (per_field_size 1024 * word_of_nat NUM_STRING_FIELDS)
     [TimeSec 0, Running True, TimeSec 1, TimeUs 0, Send 1024 512, Running True,
      Recv 1024 1024, TimeUs 90, Running True, TimeSec 2, TimeUs 100, Send 1024 1024] \<and>
   sends_open_iterations
     [TimeSec 0, Running True, TimeSec 1, TimeUs 0, Send 1024 512, Running True,
      Recv 1024 1024, TimeUs 90, Running True, TimeSec 2, TimeUs 100, Send 1024 1024] \<and>
   sent_bytes [TimeSec 0, Running True, TimeSec 1, TimeUs 0, Send 1024 512, Running True,
      Recv 1024 1024, TimeUs 90, Running True, TimeSec 2, TimeUs 100, Send 1024 1024] = [512, 1024] \<and>
   run sv_handle_client (sv_handle_client_start all_ok (new_context 1024 0))
     [Running True, Recv 1024 1024, Send 1024 512, Running True, Recv 1024 1024,
      Send 1024 1024] =
   Some \<lparr>sv_pc = SLoop,
         sv_ctx = \<lparr>msg_size = 1024, duration = 0, bytes_sent = 1536, bytes_received = 2048,
                   messages_sent = 2, messages_received = 2, total_latency_us = 0\<rparr>,
         sv_buffer_size = 1024\<rparr> \<and>
   sv_submits (per_field_size 1024 * word_of_nat NUM_STRING_FIELDS)
     [Running True, Recv 1024 1024, Send 1024 512, Running True, Recv 1024 1024,
      Send 1024 1024] \<and>
   sends_answer_receives (per_field_size 1024 * word_of_nat NUM_STRING_FIELDS)
     [Running True, Recv 1024 1024, Send 1024 512, Running True, Recv 1024 1024,
      Send 1024 1024]"
proof -
  let ?ce = "[TimeSec 0, Running True, TimeSec 1, TimeUs 0, Send 1024 512, Running True,
      Recv 1024 1024, TimeUs 90, Running True, TimeSec 2, TimeUs 100, Send 1024 1024]"
  let ?se = "[Running True, Recv 1024 1024, Send 1024 512, Running True, Recv 1024 1024,
      Send 1024 1024]"
  have rc: "run cl_client_thread (cl_client_thread_start all_ok (new_context 1024 10)) ?ce =
   Some \<lparr>cl_pc = CRecvLoop,
         cl_ctx = \<lparr>msg_size = 1024, duration = 10, bytes_sent = 1536, bytes_received = 1024,
                   messages_sent = 2, messages_received = 1, total_latency_us = 90\<rparr>,
         cl_buffer_size = 1024, end_time = 10, send_start = 100, total_recv = 0\<rparr>"
    by (simp add: cl_client_thread_start_all_ok new_context_def total_1024 cl_client_thread_def
        cl_enter_recv_def)
  have rs: "run sv_handle_client (sv_handle_client_start all_ok (new_context 1024 0)) ?se =
   Some \<lparr>sv_pc = SLoop,
         sv_ctx = \<lparr>msg_size = 1024, duration = 0, bytes_sent = 1536, bytes_received = 2048,
                   messages_sent = 2, messages_received = 2, total_latency_us = 0\<rparr>,
         sv_buffer_size = 1024\<rparr>"
    by (simp add: sv_handle_client_start_all_ok new_context_def total_1024 sv_handle_client_def)
  have m: "msg_size (new_context 1024 10) = 1024" "msg_size (new_context 1024 0) = 1024"
    by (simp_all add: new_context_def)
  from full_copy_submit [of all_ok "new_context 1024 10" ?ce _ all_ok "new_context 1024 0" ?se]
    rc rs
  have "cl_submits (per_field_size (msg_size (new_context 1024 10)) * word_of_nat NUM_STRING_FIELDS) ?ce"
    and "sends_open_iterations ?ce"
    and "sv_submits (per_field_size (msg_size (new_context 1024 0)) * word_of_nat NUM_STRING_FIELDS) ?se"
    and "sends_answer_receives
      (per_field_size (msg_size (new_context 1024 0)) * word_of_nat NUM_STRING_FIELDS) ?se"
    by blast+
  then have f: "cl_submits (per_field_size 1024 * word_of_nat NUM_STRING_FIELDS) ?ce"
    "sends_open_iterations ?ce"
    "sv_submits (per_field_size 1024 * word_of_nat NUM_STRING_FIELDS) ?se"
    "sends_answer_receives (per_field_size 1024 * word_of_nat NUM_STRING_FIELDS) ?se"
    by (simp_all only: m)
  have sb: "sent_bytes ?ce = [512, 1024]" by simp
  from rc rs f sb show ?thesis by blast
qed

section \<open>Properties of the summary\<close>

lemma join_all_sums:
  "total_bytes_sent (join_all cs acc) = total_bytes_sent acc + sum_list (map bytes_sent (joined cs)) \<and>
   total_bytes_recv (join_all cs acc) = total_bytes_recv acc + sum_list (map bytes_received (joined cs)) \<and>
   total_messages (join_all cs acc) = total_messages acc + sum_list (map messages_sent (joined cs)) \<and>
   total_latency (join_all cs acc) = total_latency acc + sum_list (map total_latency_us (joined cs)) \<and>
   active_threads (join_all cs acc) = active_threads acc + int (length (joined cs))"
proof (induction cs acc rule: join_all.induct)
  case (1 acc)
  then show ?case by simp
next
  case (2 cs acc)
  then show ?case by simp
next
  case (3 c cs acc)
  then show ?case by (simp add: algebra_simps)
qed

text \<open>
  Claim C8, amended. When the summary prints its figures, the throughput is the sum of
  all joined sessions' bytes sent and received (a 64-bit sum), times 8, over the
  configured duration times \<open>10^9\<close>; the average latency is the accumulated latency over
  the number of messages sent (the sum of \<open>messages_sent\<close>), not over the number of
  completed round trips. When the counters add up to \<open>M\<close> messages sent and \<open>M * S\<close> bytes
  in each direction, without 64-bit wrap-around, the figures are
  \<open>M * S * 2 * 8 / (duration * 10^9)\<close> and \<open>total_latency / M\<close>.
\<close>

theorem summary_figures:
  "0 < dur \<Longrightarrow> summary dur (join_all cs no_totals) = Some (thr, avg) \<Longrightarrow>
     thr = real (unat (sum_list (map bytes_sent (joined cs)) +
                       sum_list (map bytes_received (joined cs)))) * 8 /
             (real_of_int dur * 1000000000) \<and>
     avg = sum_list (map total_latency_us (joined cs)) /
             real (unat (sum_list (map messages_sent (joined cs)))) \<and>
     (\<forall>M S. unat (sum_list (map messages_sent (joined cs))) = M \<and>
            unat (sum_list (map bytes_sent (joined cs))) = M * S \<and>
            unat (sum_list (map bytes_received (joined cs))) = M * S \<and>
            M * S * 2 < 2 ^ 64 \<longrightarrow>
        thr = real (M * S * 2 * 8) / (real_of_int dur * 1000000000) \<and>
        avg = sum_list (map total_latency_us (joined cs)) / real M)"
proof -
  assume a: "summary dur (join_all cs no_totals) = Some (thr, avg)"
  let ?bs = "sum_list (map bytes_sent (joined cs))"
  let ?br = "sum_list (map bytes_received (joined cs))"
  let ?ms = "sum_list (map messages_sent (joined cs))"
  let ?lat = "sum_list (map total_latency_us (joined cs))"
  from join_all_sums [of cs no_totals]
  have t: "total_bytes_sent (join_all cs no_totals) = ?bs"
    "total_bytes_recv (join_all cs no_totals) = ?br"
    "total_messages (join_all cs no_totals) = ?ms"
    "total_latency (join_all cs no_totals) = ?lat"
    by (simp_all add: no_totals_def)
  from a have thr: "thr = real (unat (?bs + ?br)) * 8 / (real_of_int dur * 1000000000)"
    and avg: "avg = ?lat / real (unat ?ms)"
    by (auto simp: summary_def t split: if_splits)
  have m: "\<forall>M S. unat ?ms = M \<and> unat ?bs = M * S \<and> unat ?br = M * S \<and> M * S * 2 < 2 ^ 64 \<longrightarrow>
        thr = real (M * S * 2 * 8) / (real_of_int dur * 1000000000) \<and> avg = ?lat / real M"
  proof (intro allI impI)
    fix M S
    assume h: "unat ?ms = M \<and> unat ?bs = M * S \<and> unat ?br = M * S \<and> M * S * 2 < 2 ^ 64"
    then have "unat ?bs + unat ?br < 2 ^ LENGTH(64)" by simp
    then have "unat (?bs + ?br) = unat ?bs + unat ?br"
      by (rule unat_add_lem [THEN iffD1])
    with h have "unat (?bs + ?br) = M * S * 2" by simp
    with thr avg h show "thr = real (M * S * 2 * 8) / (real_of_int dur * 1000000000) \<and>
        avg = ?lat / real M" by simp
  qed
  from thr avg m show ?thesis by blast
qed

text \<open>
  Claim C8, as stated, fails. A client session completes one exchange in 100
  microseconds, sends a second message and then sees the server close the connection
  (\<open>recv\<close> returns 0). It leaves \<open>messages_sent = 2\<close>, \<open>messages_received = 1\<close> and a latency
  total of 100. The summary prints an average latency of \<open>100 / 2 = 50\<close>; divided by
  the one completed round trip it would be 100.
\<close>

theorem latency_divided_by_messages_sent:
  "run cl_client_thread (cl_client_thread_start all_ok (new_context 1024 1))
     [TimeSec 0, Running True, TimeSec 0, TimeUs 0, Send 1024 1024, Running True,
      Recv 1024 1024, TimeUs 100, Running True, TimeSec 0, TimeUs 200, Send 1024 1024,
      Running True, Recv 1024 0] =
   Some \<lparr>cl_pc = CClosed,
         cl_ctx = \<lparr>msg_size = 1024, duration = 1, bytes_sent = 2048, bytes_received = 1024,
                   messages_sent = 2, messages_received = 1, total_latency_us = 100\<rparr>,
         cl_buffer_size = 1024, end_time = 1, send_start = 200, total_recv = 0\<rparr> \<and>
   summary 1 (join_all
     [Some \<lparr>msg_size = 1024, duration = 1, bytes_sent = 2048, bytes_received = 1024,
            messages_sent = 2, messages_received = 1, total_latency_us = 100\<rparr>] no_totals) =
     Some (24576 / 1000000000, 50) \<and>
   (50 :: real) \<noteq> 100 / 1"
  by (simp add: cl_client_thread_start_all_ok new_context_def total_1024 cl_client_thread_def cl_enter_recv_def
      summary_def no_totals_def)

text \<open>Claim C8, amended, for \<open>M = 100\<close>, \<open>S = 1024\<close> and a duration of one second.\<close>

theorem summary_figures_witness:
  "(0 :: int) < 1 \<and>
   summary 1 (join_all
     [Some \<lparr>msg_size = 1024, duration = 1, bytes_sent = 102400, bytes_received = 102400,
            messages_sent = 100, messages_received = 100, total_latency_us = 5000\<rparr>, None]
     no_totals) = Some (16384 / 10000000, 50) \<and>
   (16384 / 10000000 :: real) = real (100 * 1024 * 2 * 8) / (real_of_int 1 * 1000000000) \<and>
   (50 :: real) = 5000 / real 100"
proof -
  let ?c = "\<lparr>msg_size = 1024, duration = 1, bytes_sent = 102400, bytes_received = 102400,
            messages_sent = 100, messages_received = 100, total_latency_us = 5000\<rparr>"
  have s: "summary 1 (join_all [Some ?c, None] no_totals) = Some (16384 / 10000000, 50)"
    by (simp add: summary_def no_totals_def)
  have d: "(0 :: int) < 1" by simp
  from summary_figures [OF d s] have
    "\<forall>M S. unat (sum_list (map messages_sent (joined [Some ?c, None]))) = M \<and>
            unat (sum_list (map bytes_sent (joined [Some ?c, None]))) = M * S \<and>
            unat (sum_list (map bytes_received (joined [Some ?c, None]))) = M * S \<and>
            M * S * 2 < 2 ^ 64 \<longrightarrow>
        (16384 / 10000000 :: real) = real (M * S * 2 * 8) / (real_of_int 1 * 1000000000) \<and>
        (50 :: real) = sum_list (map total_latency_us (joined [Some ?c, None])) / real M"
    by blast
  from this [rule_format, of 100 1024] s show ?thesis by simp
qed

section \<open>Properties of the zero-copy session\<close>

lemma zc_handle_client_start_1024:
  "zc_handle_client_start all_ok (new_context 1024 0) =
     \<lparr>zc_pc = ZLoop, zc_ctx = new_context 1024 0, zc_total_size = 1024, pending_completions = 0\<rparr>"
  by (simp add: zc_handle_client_start_def Let_def total_1024 allocate_message_total all_ok_def new_context_def)

lemmas zc_eval = zc_handle_client_def zc_enter_poll_def zc_enter_wait_def zc_enter_drain_def max_pending_def
  handle_zerocopy_completion_def new_context_def SOL_IP_def IP_RECVERR_def

text \<open>
  Claim C2 on the code. Eight exchanges complete with no completion notification, so
  \<open>pending_completions\<close> is 8. In the ninth, the wait loop's poll fails with an error
  other than \<open>EAGAIN\<close>; the loop is left, the response is sent and the count becomes 9,
  above \<open>max_pending\<close>.
\<close>

theorem pending_exceeds_max_pending:
  "run zc_handle_client (zc_handle_client_start all_ok (new_context 1024 0))
     ([Running True, Recv 1024 1024, Sendmsg 1024 1024 EOTHER] @
      concat (replicate 7 [Running True, ErrQueue (RecvmsgFailed EAGAIN), Recv 1024 1024,
                           Sendmsg 1024 1024 EOTHER]) @
      [Running True, ErrQueue (RecvmsgFailed EAGAIN), Recv 1024 1024,
       ErrQueue (RecvmsgFailed EOTHER), Sendmsg 1024 1024 EOTHER]) =
   Some \<lparr>zc_pc = ZLoop,
         zc_ctx = \<lparr>msg_size = 1024, duration = 0, bytes_sent = 9216, bytes_received = 9216,
                   messages_sent = 9, messages_received = 9, total_latency_us = 0\<rparr>,
         zc_total_size = 1024, pending_completions = 9\<rparr> \<and>
   \<not> (9 :: int) \<le> max_pending"
  unfolding zc_handle_client_start_1024
  by (simp add: zc_eval numeral_eq_Suc)

text \<open>
  Claim C3 on the code. After one exchange the flag is cleared; the teardown loop polls
  once, finds no notification yet and stops. The session reaches \<open>cleanup\<close> and frees
  the message with \<open>pending_completions = 1\<close>.
\<close>

theorem buffers_released_while_pending:
  "run zc_handle_client (zc_handle_client_start all_ok (new_context 1024 0))
     [Running True, Recv 1024 1024, Sendmsg 1024 1024 EOTHER,
      Running False, ErrQueue (RecvmsgFailed EAGAIN)] =
   Some \<lparr>zc_pc = ZReleased,
         zc_ctx = \<lparr>msg_size = 1024, duration = 0, bytes_sent = 1024, bytes_received = 1024,
                   messages_sent = 1, messages_received = 1, total_latency_us = 0\<rparr>,
         zc_total_size = 1024, pending_completions = 1\<rparr>"
  unfolding zc_handle_client_start_1024
  by (simp add: zc_eval)

text \<open>
  Claim C4 on the code. The second request is received and counted, its \<open>sendmsg\<close> is
  rejected with \<open>ENOBUFS\<close>, and the one poll that follows returns a completion
  (which is not subtracted from \<open>pending_completions\<close>). The loop then starts over: the
  next call on the data path is \<open>recv\<close> for a new request, with two messages received
  and one sent. A trace that retries \<open>sendmsg\<close> after the poll is not a run of the
  program.
\<close>

theorem enobufs_response_dropped:
  "run zc_handle_client (zc_handle_client_start all_ok (new_context 1024 0))
     [Running True, Recv 1024 1024, Sendmsg 1024 1024 EOTHER,
      Running True, ErrQueue (RecvmsgFailed EAGAIN), Recv 1024 1024,
      Sendmsg 1024 (- 1) ENOBUFS,
      ErrQueue (RecvmsgOk (Some \<lparr>cmsg_level = 0, cmsg_type = 11\<rparr>)),
      Running True, ErrQueue (RecvmsgFailed EAGAIN)] =
   Some \<lparr>zc_pc = ZRecv,
         zc_ctx = \<lparr>msg_size = 1024, duration = 0, bytes_sent = 1024, bytes_received = 2048,
                   messages_sent = 1, messages_received = 2, total_latency_us = 0\<rparr>,
         zc_total_size = 1024, pending_completions = 1\<rparr> \<and>
   run zc_handle_client (zc_handle_client_start all_ok (new_context 1024 0))
     [Running True, Recv 1024 1024, Sendmsg 1024 1024 EOTHER,
      Running True, ErrQueue (RecvmsgFailed EAGAIN), Recv 1024 1024,
      Sendmsg 1024 (- 1) ENOBUFS,
      ErrQueue (RecvmsgOk (Some \<lparr>cmsg_level = 0, cmsg_type = 11\<rparr>)),
      Sendmsg 1024 1024 EOTHER] = None"
  unfolding zc_handle_client_start_1024
  by (simp add: zc_eval)

lemma zc_handle_client_inv: "zc_inv s \<Longrightarrow> zc_handle_client s e = Some s' \<Longrightarrow> zc_inv s'"
  by (cases "zc_pc s"; cases e)
    (auto simp: zc_inv_def zc_handle_client_def zc_enter_poll_def zc_enter_wait_def zc_enter_drain_def
      max_pending_def Let_def split: if_splits)

lemma zc_run_inv: "zc_inv s \<Longrightarrow> run zc_handle_client s es = Some s' \<Longrightarrow> zc_inv s'"
proof (induction es arbitrary: s)
  case Nil
  then show ?case by simp
next
  case (Cons e es)
  from Cons.prems(2) obtain s1 where s1: "zc_handle_client s e = Some s1"
    and r: "run zc_handle_client s1 es = Some s'"
    by (auto split: option.splits)
  from Cons.IH [OF zc_handle_client_inv [OF Cons.prems(1) s1] r] show ?case .
qed

lemma zc_handle_client_start_inv: "zc_inv (zc_handle_client_start h c)"
  by (simp add: zc_inv_def zc_handle_client_start_def Let_def split: option.splits)

text \<open>The part of claim C2 that holds on every run: the count is never negative.\<close>

lemma zc_pending_nonneg:
  "run zc_handle_client (zc_handle_client_start h c) es = Some s \<Longrightarrow> 0 \<le> pending_completions s"
  using zc_run_inv [OF zc_handle_client_start_inv] by (simp add: zc_inv_def)

text \<open>
  The part of claim C2 that holds when no poll of the completion queue fails: the count
  is never above \<open>max_pending\<close>.
\<close>

lemma zc_handle_client_capped:
  "zc_capped s \<Longrightarrow> \<not> poll_failed e \<Longrightarrow> zc_handle_client s e = Some s' \<Longrightarrow> zc_capped s'"
  by (cases "zc_pc s"; cases e)
    (auto simp: zc_capped_def zc_handle_client_def zc_enter_poll_def zc_enter_wait_def zc_enter_drain_def
      max_pending_def Let_def split: if_splits)

lemma zc_run_capped:
  "zc_capped s \<Longrightarrow> \<forall>e \<in> set es. \<not> poll_failed e \<Longrightarrow> run zc_handle_client s es = Some s' \<Longrightarrow>
   zc_capped s'"
proof (induction es arbitrary: s)
  case Nil
  then show ?case by simp
next
  case (Cons e es)
  from Cons.prems(3) obtain s1 where s1: "zc_handle_client s e = Some s1"
    and r: "run zc_handle_client s1 es = Some s'"
    by (auto split: option.splits)
  from Cons.prems(2) have e: "\<not> poll_failed e" and es: "\<forall>e \<in> set es. \<not> poll_failed e"
    by simp_all
  from Cons.IH [OF zc_handle_client_capped [OF Cons.prems(1) e s1] es r] show ?case .
qed

lemma zc_pending_capped_without_poll_errors:
  "run zc_handle_client (zc_handle_client_start h c) es = Some s \<Longrightarrow> \<forall>e \<in> set es. \<not> poll_failed e \<Longrightarrow>
   pending_completions s \<le> max_pending"
proof -
  assume r: "run zc_handle_client (zc_handle_client_start h c) es = Some s" and n: "\<forall>e \<in> set es. \<not> poll_failed e"
  have "zc_capped (zc_handle_client_start h c)"
    by (simp add: zc_capped_def zc_handle_client_start_def Let_def max_pending_def split: option.splits)
  from zc_run_capped [OF this n r] show ?thesis by (simp add: zc_capped_def)
qed

section \<open>Properties of admission control\<close>

lemma filter_update_count:
  "i < length xs \<Longrightarrow>
   int (length (filter P (xs[i := x]))) =
     int (length (filter P xs)) - (if P (xs ! i) then 1 else 0) + (if P x then 1 else 0)"
proof (induction xs arbitrary: i)
  case Nil
  then show ?case by simp
next
  case (Cons a xs)
  show ?case
  proof (cases i)
    case 0
    then show ?thesis by simp
  next
    case (Suc j)
    with Cons.prems have "j < length xs" by simp
    from Cons.IH [OF this] Suc show ?thesis by (auto split: if_splits)
  qed
qed

lemma filter_count_pos: "i < length xs \<Longrightarrow> P (xs ! i) \<Longrightarrow> 0 < length (filter P xs)"
  by (auto simp: filter_empty_conv)

lemma unique_holder:
  assumes one: "int (length (filter P xs)) = 1"
    and i: "i < length xs" and j: "j < length xs" and pi: "P (xs ! i)" and pj: "P (xs ! j)"
  shows "i = j"
proof (rule ccontr)
  assume ne: "i \<noteq> j"
  let ?S = "{k. k < length xs \<and> P (xs ! k)}"
  have f: "finite ?S" by simp
  have "{i, j} \<subseteq> ?S" using i j pi pj by simp
  from card_mono [OF f this] ne have "2 \<le> card ?S" by simp
  then have "2 \<le> length (filter P xs)" by (simp add: length_filter_conv_card)
  with one show False by simp
qed

lemma session_holds_iff:
  "session_holds t = (fst t = TLoad \<or> fst t = TStore \<or> fst t = TUnlock)"
  by (cases t; cases "fst t") auto

lemma counted_iff: "counted t = (fst t \<noteq> TUnlock \<and> fst t \<noteq> TDone)"
  by (cases t; cases "fst t") auto

lemma server_inv_init: "server_inv m server_init"
  by (simp add: server_inv_def mutex_ok_def regs_ok_def count_ok_def server_init_def holders_def)

lemma holder_is:
  assumes inv: "mutex_ok s" and j: "j < length (sessions s)"
    and h: "session_holds (sessions s ! j)"
  shows "clients_mutex s = Some (SessionThread j)"
proof (cases "clients_mutex s")
  case None
  with inv have "holders s = 0" by (simp add: mutex_ok_def)
  with filter_count_pos [OF j, of session_holds] h show ?thesis by (simp add: holders_def)
next
  case (Some t)
  show ?thesis
  proof (cases t)
    case MainThread
    with Some inv have "holders s = 0" by (simp add: mutex_ok_def)
    with filter_count_pos [OF j, of session_holds] h show ?thesis by (simp add: holders_def)
  next
    case (SessionThread i)
    with Some inv have one: "int (length (filter session_holds (sessions s))) = 1"
      and i: "i < length (sessions s)" and hi: "session_holds (sessions s ! i)"
      by (simp_all add: mutex_ok_def holders_def)
    from unique_holder [OF one i j hi h] Some SessionThread show ?thesis by simp
  qed
qed

lemma main_holder:
  "mutex_ok s \<Longrightarrow> main_holds (main_pc s) = (clients_mutex s = Some MainThread)"
  by (auto simp: mutex_ok_def split: option.splits thread.splits)

lemma main_step_mutex_ok:
  assumes "mutex_ok s" and "main_step m ok s = Some s'"
  shows "mutex_ok s'"
proof (cases "main_holds (main_pc s)")
  case True
  with main_holder [OF assms(1)] have mu: "clients_mutex s = Some MainThread" by simp
  with assms(1) have h: "holders s = 0" by (simp add: mutex_ok_def)
  from assms(2) True mu h show ?thesis
    by (cases "main_pc s") (auto simp: main_step_def mutex_ok_def holders_def split: if_splits)
next
  case False
  with main_holder [OF assms(1)] have mu: "clients_mutex s \<noteq> Some MainThread" by simp
  show ?thesis
  proof (cases "clients_mutex s")
    case None
    with assms(1) have h: "holders s = 0" by (simp add: mutex_ok_def)
    from assms(2) False None h show ?thesis
      by (cases "main_pc s") (auto simp: main_step_def mutex_ok_def holders_def split: if_splits)
  next
    case (Some t)
    with mu obtain i where t: "t = SessionThread i" by (cases t) auto
    with Some assms(1) have h: "holders s = 1" "i < length (sessions s)"
      "session_holds (sessions s ! i)" by (simp_all add: mutex_ok_def)
    from assms(2) False Some t h show ?thesis
      by (cases "main_pc s")
        (auto simp: main_step_def mutex_ok_def holders_def nth_append split: if_splits)
  qed
qed


lemma main_step_regs_ok:
  assumes "mutex_ok s" and "regs_ok s" and "main_step m ok s = Some s'"
  shows "regs_ok s'"
proof (cases "main_holds (main_pc s)")
  case True
  with main_holder [OF assms(1)] have mu: "clients_mutex s = Some MainThread" by simp
  from assms(2,3) True mu show ?thesis
    by (cases "main_pc s") (auto simp: main_step_def regs_ok_def split: if_splits)
next
  case False
  with main_holder [OF assms(1)] have mu: "clients_mutex s \<noteq> Some MainThread" by simp
  show ?thesis
  proof (cases "clients_mutex s")
    case None
    from assms(2,3) False None show ?thesis
      by (cases "main_pc s") (auto simp: main_step_def regs_ok_def split: if_splits)
  next
    case (Some t)
    with mu obtain i where t: "t = SessionThread i" by (cases t) auto
    with Some assms(1) have h: "i < length (sessions s)" by (simp add: mutex_ok_def)
    from assms(2,3) False Some t h show ?thesis
      by (cases "main_pc s")
        (auto simp: main_step_def regs_ok_def nth_append split: if_splits)
  qed
qed

lemma main_step_count_ok:
  assumes "regs_ok s" and "count_ok m s" and "main_step m ok s = Some s'"
  shows "count_ok m s'"
  using assms
  by (cases "main_pc s") (auto simp: main_step_def regs_ok_def count_ok_def split: if_splits)

lemma main_step_inv:
  assumes "server_inv m s" and "main_step m ok s = Some s'"
  shows "server_inv m s'"
  using assms main_step_mutex_ok main_step_regs_ok main_step_count_ok
  unfolding server_inv_def by blast


lemma session_step_inv:
  assumes inv: "server_inv m s" and st: "session_step i s = Some s'"
  shows "server_inv m s'"
proof -
  from inv have mo: "mutex_ok s" and ro: "regs_ok s" and co: "count_ok m s"
    by (simp_all add: server_inv_def)
  from st have i: "i < length (sessions s)"
    by (auto simp: session_step_def split: if_splits)
  obtain pc r where t: "sessions s ! i = (pc, r)" by (cases "sessions s ! i")
  show ?thesis
  proof (cases "session_holds (sessions s ! i)")
    case True
    from holder_is [OF mo i True] have mu: "clients_mutex s = Some (SessionThread i)" .
    with mo have h: "holders s = 1" and nm: "\<not> main_holds (main_pc s)"
      by (simp_all add: mutex_ok_def)
    from nm have pcs: "main_pc s \<noteq> MIncStore" "main_pc s \<noteq> MFailStore" "main_pc s \<noteq> MIncLoad"
      by auto
    from ro mu t have reg: "pc = TStore \<Longrightarrow> r = num_active_clients s"
      by (simp add: regs_ok_def)
    from True t have "pc = TLoad \<or> pc = TStore \<or> pc = TUnlock"
      by (simp add: session_holds_iff)
    then show ?thesis
    proof (elim disjE)
      assume p: "pc = TLoad"
      with st t i have s': "s' = s\<lparr>sessions := (sessions s)[i := (TStore, num_active_clients s)]\<rparr>"
        by (simp add: session_step_def)
      have "mutex_ok s'" using mu h nm i t p
        by (simp add: s' mutex_ok_def holders_def filter_update_count)
      moreover have "regs_ok s'" using mu pcs i
        by (simp add: s' regs_ok_def)
      moreover have "count_ok m s'" using co i t p
        by (auto simp: s' count_ok_def filter_update_count)
      ultimately show ?thesis by (simp add: server_inv_def)
    next
      assume p: "pc = TStore"
      with st t i have s': "s' = s\<lparr>num_active_clients := r - 1,
          sessions := (sessions s)[i := (TUnlock, r)]\<rparr>"
        by (simp add: session_step_def)
      have "mutex_ok s'" using mu h nm i t p
        by (simp add: s' mutex_ok_def holders_def filter_update_count)
      moreover have "regs_ok s'" using mu pcs i
        by (simp add: s' regs_ok_def)
      moreover have "count_ok m s'" using co i t p reg [OF p] pcs
        by (auto simp: s' count_ok_def filter_update_count)
      ultimately show ?thesis by (simp add: server_inv_def)
    next
      assume p: "pc = TUnlock"
      with st t i have s': "s' = s\<lparr>clients_mutex := None,
          sessions := (sessions s)[i := (TDone, r)]\<rparr>"
        by (simp add: session_step_def)
      have "mutex_ok s'" using mu h nm i t p
        by (simp add: s' mutex_ok_def holders_def filter_update_count)
      moreover have "regs_ok s'" using pcs ro
        by (simp add: s' regs_ok_def)
      moreover have "count_ok m s'" using co i t p
        by (auto simp: s' count_ok_def filter_update_count)
      ultimately show ?thesis by (simp add: server_inv_def)
    qed
  next
    case False
    with t have "pc = TBody \<or> pc = TLock \<or> pc = TDone"
      by (cases pc) (simp_all add: session_holds_iff)
    then show ?thesis
    proof (elim disjE)
      assume p: "pc = TBody"
      with st t i have s': "s' = s\<lparr>sessions := (sessions s)[i := (TLock, r)]\<rparr>"
        by (simp add: session_step_def)
      have keep: "\<And>k. k < length (sessions s) \<Longrightarrow> session_holds (sessions s ! k) \<Longrightarrow>
          (sessions s)[i := (TLock, r)] ! k = sessions s ! k"
        using False by (metis nth_list_update_neq)
      have "mutex_ok s'" using mo i t p keep
        by (auto simp: s' mutex_ok_def holders_def filter_update_count
            split: option.splits thread.splits)
      moreover have "regs_ok s'" using ro mo keep
        by (auto simp: s' regs_ok_def mutex_ok_def split: option.splits thread.splits)
      moreover have "count_ok m s'" using co i t p
        by (auto simp: s' count_ok_def filter_update_count)
      ultimately show ?thesis by (simp add: server_inv_def)
    next
      assume p: "pc = TLock"
      with st t i have mu: "clients_mutex s = None"
        and s': "s' = s\<lparr>clients_mutex := Some (SessionThread i),
          sessions := (sessions s)[i := (TLoad, r)]\<rparr>"
        by (auto simp: session_step_def split: if_splits)
      from mo mu have h: "holders s = 0" and nm: "\<not> main_holds (main_pc s)"
        by (simp_all add: mutex_ok_def)
      have "mutex_ok s'" using mu h nm i t p
        by (simp add: s' mutex_ok_def holders_def filter_update_count)
      moreover have "regs_ok s'" using ro i
        by (simp add: s' regs_ok_def)
      moreover have "count_ok m s'" using co i t p
        by (auto simp: s' count_ok_def filter_update_count)
      ultimately show ?thesis by (simp add: server_inv_def)
    next
      assume p: "pc = TDone"
      with st t i show ?thesis by (simp add: session_step_def)
    qed
  qed
qed

lemma server_step_inv:
  "server_inv m s \<Longrightarrow> server_step m s mv = Some s' \<Longrightarrow> server_inv m s'"
  by (cases mv) (auto intro: main_step_inv session_step_inv)

lemma server_run_inv:
  "server_inv m s \<Longrightarrow> server_run m s mvs = Some s' \<Longrightarrow> server_inv m s'"
proof (induction mvs arbitrary: s)
  case Nil
  then show ?case by simp
next
  case (Cons mv mvs)
  from Cons.prems(2) obtain s1 where s1: "server_step m s mv = Some s1"
    and r: "server_run m s1 mvs = Some s'"
    by (auto split: option.splits)
  from Cons.IH [OF server_step_inv [OF Cons.prems(1) s1] r] show ?case .
qed


text \<open>
  Claim C7, as stated, fails for a negative maximum. \<open>parse_server_args\<close> stores
  \<open>atoi(optarg)\<close> of the option \<open>-t\<close> with no check, so \<open>-t -1\<close> configures a maximum
  of \<open>-1\<close>. The count starts at 0, which already exceeds that maximum, and it is still 0
  after the first connection has been accepted and rejected.
\<close>

theorem negative_maximum_exceeded:
  "server_run (- 1) server_init [] = Some server_init \<and>
   \<not> num_active_clients server_init \<le> - 1 \<and>
   server_run (- 1) server_init [MainMove True, MainMove True, MainMove True, MainMove True] =
     Some (server_init\<lparr>rejected := 1\<rparr>) \<and>
   \<not> num_active_clients (server_init\<lparr>rejected := 1\<rparr>) \<le> - 1"
  by (simp add: server_init_def main_step_def)

text \<open>
  Claim C7, amended. In every state the server reaches, under every interleaving of its
  threads, \<open>num_active_clients\<close> is at least 0 and at most the larger of 0 and the
  configured maximum: it never exceeds a non-negative maximum, and it stays 0 when the
  maximum is not positive. It is the number of sessions that have not stored their
  decrement plus the connection being handed over. The main thread checks and changes
  the count only while it holds \<open>clients_mutex\<close>, and a session decrements it only
  while it holds the same mutex. A connection whose check finds the count at or above
  the maximum is closed with the count and the sessions unchanged; otherwise the count
  is incremented, and only then the thread is started.
\<close>

theorem admission_control:
  "server_run max_threads server_init mvs = Some s \<Longrightarrow>
     0 \<le> num_active_clients s \<and>
     num_active_clients s \<le> max 0 max_threads \<and>
     (0 \<le> max_threads \<longrightarrow> num_active_clients s \<le> max_threads) \<and>
     (max_threads \<le> 0 \<longrightarrow> num_active_clients s = 0) \<and>
     num_active_clients s =
       int (length (filter counted (sessions s))) + (if main_counted (main_pc s) then 1 else 0) \<and>
     (main_holds (main_pc s) \<longrightarrow> clients_mutex s = Some MainThread) \<and>
     (\<forall>i < length (sessions s).
        session_holds (sessions s ! i) \<longrightarrow> clients_mutex s = Some (SessionThread i)) \<and>
     (main_pc s = MCheck \<and> num_active_clients s \<ge> max_threads \<longrightarrow>
        server_run max_threads s [MainMove True, MainMove True] =
          Some (s\<lparr>clients_mutex := None, rejected := rejected s + 1, main_pc := MAccept\<rparr>)) \<and>
     (main_pc s = MCheck \<and> num_active_clients s < max_threads \<longrightarrow>
        server_run max_threads s [MainMove True, MainMove True, MainMove True, MainMove True] =
          Some (s\<lparr>num_active_clients := num_active_clients s + 1,
                  clients_mutex := None, main_pc := MSpawn,
                  main_reg := num_active_clients s\<rparr>))"
proof -
  assume r: "server_run max_threads server_init mvs = Some s"
  from server_run_inv [OF server_inv_init r]
  have mo: "mutex_ok s" and ro: "regs_ok s" and co: "count_ok max_threads s"
    by (simp_all add: server_inv_def)
  from co have c: "num_active_clients s =
       int (length (filter counted (sessions s))) + (if main_counted (main_pc s) then 1 else 0)"
    and b: "num_active_clients s \<le> max 0 max_threads"
    by (simp_all add: count_ok_def)
  from c have n: "0 \<le> num_active_clients s" by simp
  from b have m: "0 \<le> max_threads \<longrightarrow> num_active_clients s \<le> max_threads"
    by (auto simp: max_def split: if_splits)
  from b n have z: "max_threads \<le> 0 \<longrightarrow> num_active_clients s = 0"
    by (auto simp: max_def split: if_splits)
  have hm: "main_holds (main_pc s) \<longrightarrow> clients_mutex s = Some MainThread"
    using main_holder [OF mo] by simp
  have hs: "\<forall>i < length (sessions s).
        session_holds (sessions s ! i) \<longrightarrow> clients_mutex s = Some (SessionThread i)"
    using holder_is [OF mo] by blast
  have rej: "main_pc s = MCheck \<and> num_active_clients s \<ge> max_threads \<longrightarrow>
        server_run max_threads s [MainMove True, MainMove True] =
          Some (s\<lparr>clients_mutex := None, rejected := rejected s + 1, main_pc := MAccept\<rparr>)"
    by (simp add: main_step_def)
  have adm: "main_pc s = MCheck \<and> num_active_clients s < max_threads \<longrightarrow>
        server_run max_threads s [MainMove True, MainMove True, MainMove True, MainMove True] =
          Some (s\<lparr>num_active_clients := num_active_clients s + 1,
                  clients_mutex := None, main_pc := MSpawn,
                  main_reg := num_active_clients s\<rparr>)"
    by (simp add: main_step_def)
  from n b m z c hm hs rej adm show ?thesis by blast
qed

lemma admit_moves:
  "replicate 7 (MainMove True) =
     [MainMove True, MainMove True, MainMove True, MainMove True, MainMove True, MainMove True,
      MainMove True]"
  by (simp add: numeral_eq_Suc)

text \<open>
  Claim C7, amended, with a maximum of 2: two sessions are admitted, a third connection is
  rejected while the first session reaches its end, that session decrements the count,
  and the next connection is admitted.
\<close>

theorem admission_control_witness:
  "server_run 2 server_init
     (replicate 7 (MainMove True) @ replicate 7 (MainMove True) @
      [MainMove True, MainMove True, MainMove True, SessionMove 0, MainMove True] @
      [SessionMove 0, SessionMove 0, SessionMove 0, SessionMove 0] @
      replicate 7 (MainMove True)) =
     Some \<lparr>num_active_clients = 2, clients_mutex = None, main_pc = MAccept, main_reg = 1,
           sessions = [(TDone, 2), (TBody, 0), (TBody, 0)], rejected = 1\<rparr> \<and>
   (2 :: int) \<le> max 0 2 \<and>
   int (length (filter counted [(TDone, 2), (TBody, 0), (TBody, 0)])) = 2"
proof -
  have r: "server_run 2 server_init
     (replicate 7 (MainMove True) @ replicate 7 (MainMove True) @
      [MainMove True, MainMove True, MainMove True, SessionMove 0, MainMove True] @
      [SessionMove 0, SessionMove 0, SessionMove 0, SessionMove 0] @
      replicate 7 (MainMove True)) =
     Some \<lparr>num_active_clients = 2, clients_mutex = None, main_pc = MAccept, main_reg = 1,
           sessions = [(TDone, 2), (TBody, 0), (TBody, 0)], rejected = 1\<rparr>"
    by (simp add: admit_moves server_init_def main_step_def session_step_def)
  from admission_control [OF r] r show ?thesis by simp
qed

end
